theory Spec2Isabelle
  imports Main
begin

section \<open>Python values and exceptions\<close>

text \<open>
  Every exception the modelled code can raise is a constructor of \<open>py_error\<close>; an
  operation that may raise returns \<open>py_error + 'a\<close>, with \<open>Inl\<close> for the exception.
\<close>

datatype py_error =
  RuntimeError | IndexError | ValueError | AttributeError | KeyError | TypeError
  | ZeroDivisionError | NameError

definition ebind :: "py_error + 'a \<Rightarrow> ('a \<Rightarrow> py_error + 'b) \<Rightarrow> py_error + 'b" where
  "ebind m f = (case m of Inl e \<Rightarrow> Inl e | Inr v \<Rightarrow> f v)"

text \<open>List subscripts: a negative index counts from the end, out of range raises.\<close>

definition py_index :: "'a list \<Rightarrow> int \<Rightarrow> py_error + nat" where
  "py_index xs i =
     (if 0 \<le> i \<and> i < int (length xs) then Inr (nat i)
      else if i < 0 \<and> - int (length xs) \<le> i then Inr (nat (int (length xs) + i))
      else Inl IndexError)"

definition py_get :: "'a list \<Rightarrow> int \<Rightarrow> py_error + 'a" where
  "py_get xs i = ebind (py_index xs i) (\<lambda>k. Inr (xs ! k))"

definition py_set :: "'a list \<Rightarrow> int \<Rightarrow> 'a \<Rightarrow> py_error + 'a list" where
  "py_set xs i v = ebind (py_index xs i) (\<lambda>k. Inr (xs[k := v]))"

definition py_mod :: "int \<Rightarrow> int \<Rightarrow> py_error + int" where
  "py_mod a b = (if b = 0 then Inl ZeroDivisionError else Inr (a mod b))"

fun emap :: "('a \<Rightarrow> py_error + 'b) \<Rightarrow> 'a list \<Rightarrow> py_error + 'b list" where
  "emap f [] = Inr []"
| "emap f (x # xs) = ebind (f x) (\<lambda>y. ebind (emap f xs) (\<lambda>ys. Inr (y # ys)))"

section \<open>Components/BasicComponent.py: ComponentBase.Log\<close>

text \<open>
  The logger is an output channel: every call appends one record (level and message) to
  it. The message text \<open>'[@%d]%s : %s' % (now, fullname, msg)\<close> is kept as its three
  arguments.
\<close>

datatype log_level = LvlError | LvlWarning | LvlInfo | LvlDebug

type_synonym log_record = "log_level \<times> int \<times> string \<times> string"

text \<open>Python's \<open>sub in s\<close> on strings: \<open>sub\<close> occurs in \<open>s\<close> as a contiguous run.\<close>

fun startswith :: "string \<Rightarrow> string \<Rightarrow> bool" where
  "startswith s [] = True"
| "startswith [] (p # ps) = False"
| "startswith (c # cs) (p # ps) = (c = p \<and> startswith cs ps)"

fun str_in :: "string \<Rightarrow> string \<Rightarrow> bool" where
  "str_in sub [] = (sub = [])"
| "str_in sub (c # cs) = (startswith (c # cs) sub \<or> str_in sub cs)"

text \<open>
  \<open>Log(self, msgtype, msg, pkt=None, infolist=None)\<close>. \<open>now\<close> and \<open>fullname\<close> are
  \<open>self.env.now\<close> and \<open>self.fullname\<close>; \<open>displayinfo\<close> is the constant \<open>True\<close> of the
  source. The result is the logger's output after the call, or the exception raised.
\<close>

definition Log ::
  "int \<Rightarrow> string \<Rightarrow> string \<Rightarrow> string \<Rightarrow> string list \<Rightarrow> log_record list
     \<Rightarrow> py_error + log_record list" where
  "Log now fullname msgtype msg infolist logger =
     (let displayinfo = True;
          r1 = (if msgtype = ''FATAL_ERROR'' then Inr (logger @ [(LvlError, now, fullname, msg)])
                else if msgtype = ''WARNING'' then Inr (logger @ [(LvlWarning, now, fullname, msg)])
                else if msgtype = ''INFO'' then
                  (if displayinfo then Inr (logger @ [(LvlInfo, now, fullname, msg)])
                   else Inr logger)
                else if msgtype = ''DEBUG'' then Inr (logger @ [(LvlDebug, now, fullname, msg)])
                else Inl RuntimeError)
      in case r1 of
           Inl e \<Rightarrow> Inl e
         | Inr l1 \<Rightarrow>
             (let l2 = (if infolist \<noteq> [] \<and> displayinfo
                        then l1 @ [(LvlInfo, now, fullname, ''Infodump follows:'')]
                               @ map (\<lambda>item. (LvlInfo, now, fullname, item)) infolist
                        else l1)
              in if str_in ''ERRROR'' msgtype then Inl RuntimeError else Inr l2))"

section \<open>Components/Packets.py\<close>

record BasePacket =
  uid :: string
  payloadBytes :: int
  headerBytes :: int

text \<open>
  \<open>BasePacket\<close> defines neither \<open>__bool__\<close> nor \<open>__len__\<close>: a packet is truthy and
  \<open>None\<close> is falsy, so \<open>if pktList[candidate]\<close> tests for the presence of a packet.
\<close>

definition truthy :: "BasePacket option \<Rightarrow> bool" where
  "truthy p = (p \<noteq> None)"

section \<open>Components/Arbiters.py\<close>

text \<open>
  \<open>toUp\<close> and \<open>toDn\<close> are either one connected component or a dictionary from port
  keys to components (filled by \<open>Unit.connect\<close>); only the \<open>name\<close> of a connected
  component is read by the arbiters.
\<close>

datatype ports = Component string | PortDict "int \<Rightarrow> string option"

text \<open>\<open>conn[i].name if n > 1 else conn.name\<close>\<close>

definition port_name :: "int \<Rightarrow> ports \<Rightarrow> int \<Rightarrow> py_error + string" where
  "port_name n conn i =
     (if n > 1 then
        (case conn of
           PortDict d \<Rightarrow> (case d i of None \<Rightarrow> Inl KeyError | Some nm \<Rightarrow> Inr nm)
         | Component nm \<Rightarrow> Inl TypeError)
      else
        (case conn of
           Component nm \<Rightarrow> Inr nm
         | PortDict d \<Rightarrow> Inl AttributeError))"

record crossbar =
  inPorts :: int
  outPorts :: int
  lastport :: "int list"
  toUp :: ports
  toDn :: ports

text \<open>\<open>Crossbar.__init__\<close>: the fields the arbitration policies read and write.\<close>

definition Crossbar_init :: "int \<Rightarrow> int \<Rightarrow> crossbar" where
  "Crossbar_init n m =
     \<lparr>inPorts = n, outPorts = m, lastport = replicate (nat m) (- 1),
      toUp = PortDict Map.empty, toDn = PortDict Map.empty\<rparr>"

text \<open>\<open>[i for i, pkt in enumerate(pktList) if pkt != None]\<close>\<close>

definition activeports :: "BasePacket option list \<Rightarrow> int list" where
  "activeports pktList =
     map (\<lambda>k. int k) (filter (\<lambda>k. pktList ! k \<noteq> None) [0..<length pktList])"

text \<open>
  The names looked up for the INFO record of a decision: \<open>inPortName\<close>, \<open>outPortName\<close>
  and \<open>unMaskedPorts\<close>. The record itself goes to the logger and cannot fail; the
  lookups can.
\<close>

definition decision_names ::
  "'a crossbar_scheme \<Rightarrow> int list \<Rightarrow> int \<Rightarrow> int \<Rightarrow> py_error + unit" where
  "decision_names xb active candidate outPort =
     ebind (port_name (inPorts xb) (toUp xb) candidate) (\<lambda>inPortName.
     ebind (port_name (outPorts xb) (toDn xb) outPort) (\<lambda>outPortName.
     ebind (if inPorts xb > 1 then emap (port_name (inPorts xb) (toUp xb)) active
            else ebind (port_name (inPorts xb) (toUp xb) 0) (\<lambda>nm. Inr [nm])) (\<lambda>unMaskedPorts.
     Inr ())))"

text \<open>
  A crossbar whose ports are connected: every input key \<open>0 .. inPorts - 1\<close> and every
  output key \<open>0 .. outPorts - 1\<close> names a component (one component alone when there is
  a single port).
\<close>

definition connected :: "int \<Rightarrow> ports \<Rightarrow> bool" where
  "connected n conn =
     (if n > 1 then (case conn of PortDict d \<Rightarrow> list_all (\<lambda>i. d i \<noteq> None) [0..n - 1]
                                 | Component nm \<Rightarrow> False)
      else (case conn of Component nm \<Rightarrow> True | PortDict d \<Rightarrow> False))"

definition wired :: "'a crossbar_scheme \<Rightarrow> bool" where
  "wired xb = (connected (inPorts xb) (toUp xb) \<and> connected (outPorts xb) (toDn xb))"

subsection \<open>RoundRobinCrossbar.arbitratePkts\<close>

function rr_scan ::
  "crossbar \<Rightarrow> BasePacket option list \<Rightarrow> int \<Rightarrow> int \<Rightarrow> int
     \<Rightarrow> py_error + (int option \<times> crossbar)" where
  "rr_scan xb pktList outPort count candidate =
     (if count < inPorts xb then
        (case py_get pktList candidate of
           Inl e \<Rightarrow> Inl e
         | Inr p \<Rightarrow>
             if truthy p then
               ebind (py_set (lastport xb) outPort candidate) (\<lambda>lp.
               ebind (decision_names (xb\<lparr>lastport := lp\<rparr>) (activeports pktList)
                        candidate outPort) (\<lambda>_.
               Inr (Some candidate, xb\<lparr>lastport := lp\<rparr>)))
             else
               (case py_mod (candidate + 1) (inPorts xb) of
                  Inl e \<Rightarrow> Inl e
                | Inr c \<Rightarrow> rr_scan xb pktList outPort (count + 1) c))
      else Inr (None, xb))"
  by pat_completeness auto
termination
  by (relation "measure (\<lambda>(xb, pktList, outPort, count, candidate). nat (inPorts xb - count))")
     auto

definition rr_arbitratePkts ::
  "crossbar \<Rightarrow> BasePacket option list \<Rightarrow> int \<Rightarrow> py_error + (int option \<times> crossbar)" where
  "rr_arbitratePkts xb pktList outPort =
     ebind (py_get (lastport xb) outPort) (\<lambda>l.
     ebind (py_mod (l + 1) (inPorts xb)) (\<lambda>candidate.
     rr_scan xb pktList outPort 0 candidate))"

text \<open>
  Consecutive arbitration rounds for one output with the same offered packets: the
  decisions in order, and the crossbar after the last one.
\<close>

fun rr_rounds ::
  "nat \<Rightarrow> crossbar \<Rightarrow> BasePacket option list \<Rightarrow> int
     \<Rightarrow> py_error + (int option list \<times> crossbar)" where
  "rr_rounds 0 xb pktList outPort = Inr ([], xb)"
| "rr_rounds (Suc n) xb pktList outPort =
     (case rr_arbitratePkts xb pktList outPort of
        Inl e \<Rightarrow> Inl e
      | Inr (r, xb') \<Rightarrow>
          (case rr_rounds n xb' pktList outPort of
             Inl e \<Rightarrow> Inl e
           | Inr (rs, xb'') \<Rightarrow> Inr (r # rs, xb'')))"

subsection \<open>WeightedRoundRobinCrossbar\<close>

text \<open>
  \<open>weights\<close> is \<open>None\<close> when the attribute was never assigned (the constructor's length
  check failed); reading it then raises AttributeError.
\<close>

record wrr_crossbar = crossbar +
  weights :: "int list option"
  grants :: "int list"

text \<open>
  \<open>WeightedRoundRobinCrossbar.__init__\<close>, with the logger's output before and after.
\<close>

definition WeightedRoundRobinCrossbar_init ::
  "int \<Rightarrow> string \<Rightarrow> int \<Rightarrow> int \<Rightarrow> int list \<Rightarrow> log_record list
     \<Rightarrow> py_error + (wrr_crossbar \<times> log_record list)" where
  "WeightedRoundRobinCrossbar_init now fullname n m ws logger =
     (let base = Crossbar_init n m
      in ebind (if int (length ws) = inPorts base then Inr (Some ws, logger)
                else ebind (Log now fullname ''FATAL_ERROR''
                              ''provide a list of integer weights as an argument (weights=[])''
                              [] logger) (\<lambda>lg. Inr (None, lg))) (\<lambda>(w, lg).
         Inr (\<lparr>inPorts = inPorts base, outPorts = outPorts base, lastport = lastport base,
                toUp = toUp base, toDn = toDn base,
                weights = w, grants = replicate (nat (inPorts base)) 0\<rparr>, lg)))"

text \<open>\<open>Unit.connect\<close> and \<open>unitConns\<close> fill \<open>toUp\<close> and \<open>toDn\<close> after construction.\<close>

definition connect :: "'a crossbar_scheme \<Rightarrow> ports \<Rightarrow> ports \<Rightarrow> 'a crossbar_scheme" where
  "connect xb up dn = xb\<lparr>toUp := up, toDn := dn\<rparr>"

definition get_weights :: "wrr_crossbar \<Rightarrow> py_error + int list" where
  "get_weights xb = (case weights xb of None \<Rightarrow> Inl AttributeError | Some ws \<Rightarrow> Inr ws)"

text \<open>
  The body of \<open>if pktList[candidate]:\<close> in the scan: the new \<open>decisionMade\<close>,
  \<open>selectedCandidate\<close> and \<open>grants\<close>.
\<close>

definition wrr_visit ::
  "wrr_crossbar \<Rightarrow> int \<Rightarrow> bool \<Rightarrow> int option \<Rightarrow> int list
     \<Rightarrow> py_error + (bool \<times> int option \<times> int list)" where
  "wrr_visit xb candidate decisionMade selectedCandidate gs =
     ebind (get_weights xb) (\<lambda>ws.
     ebind (py_get ws candidate) (\<lambda>w.
     ebind (py_get gs candidate) (\<lambda>g.
       let (dm, sel) = (if w > g then (True, Some candidate)
                        else if selectedCandidate = None then (decisionMade, Some candidate)
                        else (decisionMade, selectedCandidate))
       in if g = w then ebind (py_set gs candidate 0) (\<lambda>gs'. Inr (dm, sel, gs'))
          else Inr (dm, sel, gs))))"

function wrr_scan ::
  "wrr_crossbar \<Rightarrow> BasePacket option list \<Rightarrow> int \<Rightarrow> int \<Rightarrow> bool \<Rightarrow> int option \<Rightarrow> int list
     \<Rightarrow> py_error + (int option \<times> int list)" where
  "wrr_scan xb pktList count candidate decisionMade selectedCandidate gs =
     (if count < inPorts xb \<and> \<not> decisionMade then
        (case py_get pktList candidate of
           Inl e \<Rightarrow> Inl e
         | Inr p \<Rightarrow>
             (case (if truthy p then wrr_visit xb candidate decisionMade selectedCandidate gs
                    else Inr (decisionMade, selectedCandidate, gs)) of
                Inl e \<Rightarrow> Inl e
              | Inr (dm, sel, gs') \<Rightarrow>
                  (case py_mod (candidate + 1) (inPorts xb) of
                     Inl e \<Rightarrow> Inl e
                   | Inr c \<Rightarrow> wrr_scan xb pktList (count + 1) c dm sel gs')))
      else Inr (selectedCandidate, gs))"
  by pat_completeness auto
termination
  by (relation "measure (\<lambda>(xb, pktList, count, candidate, dm, sel, gs). nat (inPorts xb - count))")
     auto

definition wrr_arbitratePkts ::
  "wrr_crossbar \<Rightarrow> BasePacket option list \<Rightarrow> int
     \<Rightarrow> py_error + (int option \<times> wrr_crossbar)" where
  "wrr_arbitratePkts xb pktList outPort =
     ebind (py_get (lastport xb) outPort) (\<lambda>candidate.
     ebind (wrr_scan xb pktList 0 candidate False None (grants xb)) (\<lambda>(selectedCandidate, gs).
       case selectedCandidate of
         None \<Rightarrow> Inr (None, xb\<lparr>grants := gs\<rparr>)
       | Some c \<Rightarrow>
           ebind (py_set (lastport xb) outPort c) (\<lambda>lp.
           ebind (py_get gs c) (\<lambda>g.
           ebind (py_set gs c (g + 1)) (\<lambda>gs'.
           ebind (decision_names (xb\<lparr>lastport := lp, grants := gs'\<rparr>) (activeports pktList)
                    c outPort) (\<lambda>_.
           Inr (Some c, xb\<lparr>lastport := lp, grants := gs'\<rparr>)))))))"



text \<open>
  A connected weighted-round-robin crossbar inside a period of \<open>outPort\<close>: one weight
  per input and every weight at least 1, the last-served pointer of the output a valid
  input index \<open>l\<close>, the grant counter of \<open>l\<close> between 0 and its weight, and every other
  grant counter 0. Neither the constructor (which sets the pointer to \<open>-1\<close> and checks
  only the length of \<open>weights\<close>) nor a call with some inputs idle (which can leave
  several counters above 0) establishes it; a first call in which the last input is
  idle and input 0 offers a packet does.
\<close>

definition wrr_in_period :: "wrr_crossbar \<Rightarrow> int list \<Rightarrow> int \<Rightarrow> bool" where
  "wrr_in_period xb ws outPort =
     (wired xb \<and> 1 \<le> inPorts xb \<and> weights xb = Some ws \<and> length ws = nat (inPorts xb)
      \<and> list_all (\<lambda>w. 1 \<le> w) ws
      \<and> 0 \<le> outPort \<and> outPort < outPorts xb \<and> length (lastport xb) = nat (outPorts xb)
      \<and> (let l = lastport xb ! nat outPort
         in 0 \<le> l \<and> l < inPorts xb \<and> 0 \<le> grants xb ! nat l \<and> grants xb ! nat l \<le> ws ! nat l
            \<and> grants xb = (replicate (nat (inPorts xb)) 0)[nat l := grants xb ! nat l]))"

subsection \<open>FixedPriorityCrossbar\<close>

text \<open>
  \<open>priorities\<close> and \<open>priorityClasses\<close> are \<open>None\<close> when the constructor never assigned
  them. Priorities are integers by type, so the \<open>isinstance\<close> test of the constructor
  holds.
\<close>

record fp_crossbar = crossbar +
  priorities :: "int list option"
  priorityClasses :: "int option"
  lastportPerClass :: "int list list"

text \<open>Python's \<open>max\<close> of a list: ValueError on the empty list.\<close>

definition py_max :: "int list \<Rightarrow> py_error + int" where
  "py_max xs = (case xs of [] \<Rightarrow> Inl ValueError | x # ys \<Rightarrow> Inr (foldl max x ys))"

definition FixedPriorityCrossbar_init ::
  "int \<Rightarrow> string \<Rightarrow> int \<Rightarrow> int \<Rightarrow> int list \<Rightarrow> log_record list
     \<Rightarrow> py_error + (fp_crossbar \<times> log_record list)" where
  "FixedPriorityCrossbar_init now fullname n m ps logger =
     (let base = Crossbar_init n m
      in ebind (if ps = [] then Inr (Some (replicate (nat (inPorts base)) 0), Some 1, logger)
                else if int (length ps) = inPorts base then
                  ebind (py_max ps) (\<lambda>mx. Inr (Some ps, Some (mx + 1), logger))
                else ebind (Log now fullname ''FATAL_ERROR''
                       ''the number of priorities provided must be equal to the number of inPorts''
                       [] logger) (\<lambda>lg. Inr (None, None, lg))) (\<lambda>(p, c, lg).
         case c of
           None \<Rightarrow> Inl AttributeError
         | Some k \<Rightarrow>
             Inr (\<lparr>inPorts = inPorts base, outPorts = outPorts base, lastport = lastport base,
                    toUp = toUp base, toDn = toDn base,
                    priorities = p, priorityClasses = c,
                    lastportPerClass = replicate (nat k) (replicate (nat (outPorts base)) (- 1))\<rparr>,
                  lg)))"

definition get_priorities :: "fp_crossbar \<Rightarrow> py_error + int list" where
  "get_priorities xb = (case priorities xb of None \<Rightarrow> Inl AttributeError | Some ps \<Rightarrow> Inr ps)"

text \<open>
  \<open>for port in activeports: if self.priorities[port] < maxpriority: pktList[port] = None\<close>;
  the caller's list is changed in place.
\<close>

fun fp_mask ::
  "int list \<Rightarrow> int \<Rightarrow> int list \<Rightarrow> BasePacket option list
     \<Rightarrow> py_error + BasePacket option list" where
  "fp_mask ps maxpriority [] pktList = Inr pktList"
| "fp_mask ps maxpriority (port # rest) pktList =
     (case py_get ps port of
        Inl e \<Rightarrow> Inl e
      | Inr p \<Rightarrow>
          (case (if p < maxpriority then py_set pktList port None else Inr pktList) of
             Inl e \<Rightarrow> Inl e
           | Inr pktList' \<Rightarrow> fp_mask ps maxpriority rest pktList'))"

function fp_scan ::
  "fp_crossbar \<Rightarrow> int list \<Rightarrow> BasePacket option list \<Rightarrow> int \<Rightarrow> int \<Rightarrow> int \<Rightarrow> int
     \<Rightarrow> py_error + (int option \<times> fp_crossbar)" where
  "fp_scan xb active pktList maxpriority outPort count candidate =
     (if count < inPorts xb then
        (case py_get pktList candidate of
           Inl e \<Rightarrow> Inl e
         | Inr p \<Rightarrow>
             if truthy p then
               ebind (py_get (lastportPerClass xb) maxpriority) (\<lambda>row.
               ebind (py_set row outPort candidate) (\<lambda>row'.
               ebind (py_set (lastportPerClass xb) maxpriority row') (\<lambda>lpc.
               ebind (py_set (lastport xb) outPort candidate) (\<lambda>lp.
               ebind (decision_names (xb\<lparr>lastport := lp, lastportPerClass := lpc\<rparr>) active
                        candidate outPort) (\<lambda>_.
               Inr (Some candidate, xb\<lparr>lastport := lp, lastportPerClass := lpc\<rparr>))))))
             else
               (case py_mod (candidate + 1) (inPorts xb) of
                  Inl e \<Rightarrow> Inl e
                | Inr c \<Rightarrow> fp_scan xb active pktList maxpriority outPort (count + 1) c))
      else Inr (None, xb))"
  by pat_completeness auto
termination
  by (relation "measure (\<lambda>(xb, active, pktList, maxpriority, outPort, count, candidate).
                   nat (inPorts xb - count))")
     auto

text \<open>
  \<open>FixedPriorityCrossbar.arbitratePkts\<close>: the decision, the crossbar and the caller's
  \<open>pktList\<close> after the call.
\<close>

definition fp_arbitratePkts ::
  "fp_crossbar \<Rightarrow> BasePacket option list \<Rightarrow> int
     \<Rightarrow> py_error + (int option \<times> fp_crossbar \<times> BasePacket option list)" where
  "fp_arbitratePkts xb pktList outPort =
     (let active = activeports pktList
      in ebind (get_priorities xb) (\<lambda>ps.
         ebind (emap (py_get ps) active) (\<lambda>prios.
         ebind (py_max prios) (\<lambda>maxpriority.
         ebind (fp_mask ps maxpriority active pktList) (\<lambda>pktList'.
         ebind (py_get (lastportPerClass xb) maxpriority) (\<lambda>row.
         ebind (py_get row outPort) (\<lambda>l.
         ebind (py_mod (l + 1) (inPorts xb)) (\<lambda>candidate.
         ebind (fp_scan xb active pktList' maxpriority outPort 0 candidate) (\<lambda>(r, xb').
         Inr (r, xb', pktList'))))))))))"

text \<open>
  Consecutive arbitration calls for one output, one offered list per call: the
  decisions in order, and the crossbar after the last call.
\<close>

fun fp_calls ::
  "fp_crossbar \<Rightarrow> BasePacket option list list \<Rightarrow> int
     \<Rightarrow> py_error + (int option list \<times> fp_crossbar)" where
  "fp_calls xb [] outPort = Inr ([], xb)"
| "fp_calls xb (pktList # rest) outPort =
     ebind (fp_arbitratePkts xb pktList outPort) (\<lambda>(r, xb', pktList').
     ebind (fp_calls xb' rest outPort) (\<lambda>(rs, xb''). Inr (r # rs, xb'')))"

text \<open>
  \<open>top_class ps pktList\<close>: the offered packets of the highest priority class present,
  with \<open>None\<close> at every other input.
\<close>

definition top_class :: "int list \<Rightarrow> BasePacket option list \<Rightarrow> BasePacket option list" where
  "top_class ps pktList =
     map (\<lambda>i. if \<forall>j < length pktList. pktList ! j \<noteq> None \<longrightarrow> ps ! j \<le> ps ! i
               then pktList ! i else None) [0..<length pktList]"

text \<open>
  A connected fixed-priority crossbar in which every priority class has a row of its
  own in \<open>lastportPerClass\<close>: one priority per input, every priority \<open>p\<close> with
  \<open>0 \<le> p < len(lastportPerClass)\<close>, one pointer per class and output. The constructor
  does not check this: it accepts any list of integers of the right length and builds
  rows for the classes \<open>0 .. max(priorities)\<close> only, so it establishes \<open>fp_wf\<close> when
  no priority is negative, and not otherwise.
\<close>

definition fp_wf :: "fp_crossbar \<Rightarrow> int list \<Rightarrow> bool" where
  "fp_wf xb ps =
     (wired xb \<and> 1 \<le> inPorts xb \<and> priorities xb = Some ps
      \<and> length ps = nat (inPorts xb)
      \<and> list_all (\<lambda>p. 0 \<le> p \<and> p < int (length (lastportPerClass xb))) ps
      \<and> list_all (\<lambda>row. length row = nat (outPorts xb)) (lastportPerClass xb)
      \<and> length (lastport xb) = nat (outPorts xb))"

text \<open>
  \<open>first_present pktList n s c\<close>: scanning the \<open>n\<close> inputs cyclically from \<open>s\<close>, input
  \<open>c\<close> is the first one that offers a packet.
\<close>

definition first_present :: "BasePacket option list \<Rightarrow> int \<Rightarrow> int \<Rightarrow> int \<Rightarrow> bool" where
  "first_present pktList n s c =
     (\<exists>k < nat n. c = (s + int k) mod n \<and> pktList ! nat c \<noteq> None
        \<and> (\<forall>j < k. pktList ! nat ((s + int j) mod n) = None))"

section \<open>The event substrate: simpy's Event and Environment, simpyExtensions/util.py\<close>

text \<open>
  Events are objects shared between the queues of a resource, the schedule of the
  environment and the callers, so they live in a store indexed by reference. An event
  holds \<open>_value\<close> (\<open>None\<close> for simpy's \<open>PENDING\<close>), \<open>_ok\<close> (unset until triggered),
  \<open>item\<close> and \<open>callbacks\<close> (\<open>None\<close> once the environment has processed the event).
  \<open>caller\<close> and \<open>proc\<close> are only read for log messages and are left out. A
  callback is a bound method of the component that owns the event; \<open>'cb\<close> names the
  methods of that component.
\<close>

datatype pyval = PyNone | PyInt int | PyPkt BasePacket

record 'cb event =
  ev_value :: "pyval option"
  ev_ok :: "bool option"
  ev_item :: pyval
  ev_callbacks :: "'cb list option"

text \<open>
  The environment: the clock, the counter \<open>_eid\<close>, and the schedule \<open>_queue\<close> of entries
  \<open>(time, priority, eid, event)\<close>. \<open>simTicksPerCycle\<close> is the constant of the module
  \<open>SimSettings\<close>, kept as a field.
\<close>

type_synonym entry = "int \<times> nat \<times> nat \<times> nat"

record 'cb sim_env =
  env_now :: int
  env_eid :: nat
  env_queue :: "entry list"
  events :: "nat \<Rightarrow> 'cb event"
  nrefs :: nat
  simTicksPerCycle :: int

text \<open>
  A stateful operation either raises, leaving the state as it is at the \<open>raise\<close>, or
  returns a value and the new state.
\<close>

datatype ('r, 's) outcome = Raised py_error 's | Returned 'r 's

definition sbind ::
  "('r, 's) outcome \<Rightarrow> ('r \<Rightarrow> 's \<Rightarrow> ('q, 's) outcome) \<Rightarrow> ('q, 's) outcome" where
  "sbind m f = (case m of Raised e s \<Rightarrow> Raised e s | Returned r s \<Rightarrow> f r s)"

definition URGENT :: nat where "URGENT = 0"
definition NORMAL :: nat where "NORMAL = 1"

text \<open>\<open>Environment.schedule(event, priority=NORMAL, delay=0)\<close>\<close>

definition schedule :: "nat \<Rightarrow> nat \<Rightarrow> int \<Rightarrow> ('cb, 'a) sim_env_scheme \<Rightarrow> ('cb, 'a) sim_env_scheme" where
  "schedule e priority delay s =
     s\<lparr>env_queue := env_queue s @ [(env_now s + delay, priority, env_eid s, e)],
       env_eid := Suc (env_eid s)\<rparr>"

text \<open>\<open>NewEvent(env, item)\<close>: a fresh pending event with no callbacks.\<close>

definition new_event :: "pyval \<Rightarrow> ('cb, 'a) sim_env_scheme \<Rightarrow> nat \<times> ('cb, 'a) sim_env_scheme" where
  "new_event item s =
     (nrefs s,
      s\<lparr>events := (events s)(nrefs s :=
            \<lparr>ev_value = None, ev_ok = None, ev_item = item, ev_callbacks = Some []\<rparr>),
        nrefs := Suc (nrefs s)\<rparr>)"

text \<open>\<open>Event.triggered\<close>: \<open>self._value is not PENDING\<close>\<close>

definition triggered :: "('cb, 'a) sim_env_scheme \<Rightarrow> nat \<Rightarrow> bool" where
  "triggered s e = (ev_value (events s e) \<noteq> None)"

text \<open>\<open>NewEvent.succeed(value=None, delay=0)\<close>; it returns the event.\<close>

definition succeed ::
  "nat \<Rightarrow> pyval \<Rightarrow> int \<Rightarrow> ('cb, 'a) sim_env_scheme \<Rightarrow> (nat, ('cb, 'a) sim_env_scheme) outcome" where
  "succeed e v delay s =
     (if ev_value (events s e) \<noteq> None then Raised RuntimeError s
      else Returned e
             (schedule e NORMAL delay
                (s\<lparr>events := (events s)(e := (events s e)\<lparr>ev_ok := Some True, ev_value := Some v\<rparr>)\<rparr>)))"

text \<open>\<open>event.callbacks += cbs\<close>: TypeError once \<open>callbacks\<close> is \<open>None\<close>.\<close>

definition add_callbacks ::
  "nat \<Rightarrow> 'cb list \<Rightarrow> ('cb, 'a) sim_env_scheme \<Rightarrow> (unit, ('cb, 'a) sim_env_scheme) outcome" where
  "add_callbacks e cbs s =
     (case ev_callbacks (events s e) of
        None \<Rightarrow> Raised TypeError s
      | Some cs \<Rightarrow> Returned () (s\<lparr>events := (events s)(e := (events s e)\<lparr>ev_callbacks := Some (cs @ cbs)\<rparr>)\<rparr>))"

text \<open>
  \<open>Environment.step\<close>: take the entry with the least \<open>(time, priority, eid)\<close>, advance
  the clock to its time, detach the event's callbacks and call them in order.
  \<open>run\<close> is what each callback does.
\<close>

definition before :: "entry \<Rightarrow> entry \<Rightarrow> bool" where
  "before a b =
     (case a of (ta, pa, ia, ea) \<Rightarrow> case b of (tb, pb, ib, eb) \<Rightarrow>
        ta < tb \<or> (ta = tb \<and> (pa < pb \<or> (pa = pb \<and> ia < ib))))"

fun earliest :: "entry \<Rightarrow> entry list \<Rightarrow> entry" where
  "earliest x [] = x"
| "earliest x (y # ys) = earliest (if before y x then y else x) ys"

fun run_callbacks ::
  "('cb \<Rightarrow> nat \<Rightarrow> 's \<Rightarrow> (unit, 's) outcome) \<Rightarrow> 'cb list \<Rightarrow> nat \<Rightarrow> 's
     \<Rightarrow> (unit, 's) outcome" where
  "run_callbacks run [] e s = Returned () s"
| "run_callbacks run (cb # cbs) e s =
     (case run cb e s of
        Raised err s' \<Rightarrow> Raised err s'
      | Returned u s' \<Rightarrow> run_callbacks run cbs e s')"

definition step ::
  "('cb \<Rightarrow> nat \<Rightarrow> ('cb, 'a) sim_env_scheme \<Rightarrow> (unit, ('cb, 'a) sim_env_scheme) outcome)
     \<Rightarrow> ('cb, 'a) sim_env_scheme \<Rightarrow> (unit, ('cb, 'a) sim_env_scheme) outcome" where
  "step run s =
     (case env_queue s of
        [] \<Rightarrow> Raised IndexError s
      | x # xs \<Rightarrow>
          (case earliest x xs of (t, p, i, e) \<Rightarrow>
             (let s1 = s\<lparr>env_now := t, env_queue := remove1 (t, p, i, e) (env_queue s)\<rparr>
              in case ev_callbacks (events s1 e) of
                   None \<Rightarrow> Raised TypeError s1
                 | Some cbs \<Rightarrow>
                     sbind (run_callbacks run cbs e
                              (s1\<lparr>events := (events s1)(e := (events s1 e)\<lparr>ev_callbacks := None\<rparr>)\<rparr>))
                       (\<lambda>u s2. if ev_ok (events s2 e) = Some True then Returned () s2
                                else Raised RuntimeError s2))))"

text \<open>\<open>queue.pop(idx)\<close> for an index in range: the queue without that element.\<close>

definition list_pop :: "'a list \<Rightarrow> nat \<Rightarrow> 'a list" where
  "list_pop q idx = take idx q @ drop (Suc idx) q"

section \<open>Components/Buffers.py: CreditBuffer\<close>

text \<open>
  A credit buffer is a simpy \<open>Store\<close> of tokens with a queue of peek requests; the
  \<open>item\<close> of a peek request is its threshold.
\<close>

text \<open>The methods of a buffer that are registered as callbacks.\<close>

datatype buffer_callback =
  Cb_insert_packet | Cb_remove_packet | Cb_trigger_put | Cb_trigger_get | Cb_trigger_peek
  | Cb_updateTotalWrBits | Cb_updateTotalRdBits

record credit_buffer = "buffer_callback sim_env" +
  cb_capacity :: int
  cb_items :: "pyval list"
  cb_peek_queue :: "nat list"

text \<open>
  \<open>CreditBuffer._do_peek\<close>; the result is the truth value of what it returns (\<open>True\<close>,
  or \<open>None\<close>). Comparing \<open>len(self.items)\<close> with an item that is not a number raises
  TypeError.
\<close>

definition cb_do_peek :: "nat \<Rightarrow> credit_buffer \<Rightarrow> (bool, credit_buffer) outcome" where
  "cb_do_peek e s =
     (case ev_item (events s e) of
        PyInt thresh \<Rightarrow>
          if int (length (cb_items s)) > thresh
          then sbind (succeed e PyNone 0 s) (\<lambda>_ s'. Returned True s')
          else Returned False s
      | _ \<Rightarrow> Raised TypeError s)"

text \<open>
  \<open>CreditBuffer._trigger_peek\<close>. The routine returns \<open>None\<close>; the model returns the
  requests on which \<open>_do_peek\<close> was called, in order, as a record of the scan.
\<close>

function cb_trigger_peek_loop ::
  "nat \<Rightarrow> nat list \<Rightarrow> credit_buffer \<Rightarrow> (nat list, credit_buffer) outcome" where
  "cb_trigger_peek_loop idx checked s =
     (if idx < length (cb_peek_queue s) then
        (let peek_event = cb_peek_queue s ! idx
         in case cb_do_peek peek_event s of
              Raised err s1 \<Rightarrow> Raised err s1
            | Returned proceed s1 \<Rightarrow>
                (case (if \<not> triggered s1 peek_event then Returned (idx + 1) s1
                       else if \<not> idx < length (cb_peek_queue s1) then Raised IndexError s1
                       else if cb_peek_queue s1 ! idx \<noteq> peek_event
                         then Raised RuntimeError
                                (s1\<lparr>cb_peek_queue := list_pop (cb_peek_queue s1) idx\<rparr>)
                       else Returned idx (s1\<lparr>cb_peek_queue := list_pop (cb_peek_queue s1) idx\<rparr>)) of
                   Raised err s2 \<Rightarrow> Raised err s2
                 | Returned idx' s2 \<Rightarrow>
                     if \<not> proceed then Returned (checked @ [peek_event]) s2
                     else cb_trigger_peek_loop idx' (checked @ [peek_event]) s2))
      else Returned checked s)"
  by pat_completeness auto
termination
  by (relation "measure (\<lambda>(idx, checked, s). length (cb_peek_queue s) - idx)")
     (auto simp: cb_do_peek_def sbind_def succeed_def schedule_def triggered_def list_pop_def
           split: pyval.splits if_splits)

definition cb_trigger_peek :: "credit_buffer \<Rightarrow> (nat list, credit_buffer) outcome" where
  "cb_trigger_peek s = cb_trigger_peek_loop 0 [] s"

text \<open>
  \<open>CreditBuffer.peek(thresh)\<close>, that is \<open>BufferPeek(self, thresh)\<close>: the new request is
  appended to the queue and the trigger routine runs at once.
\<close>

definition cb_peek :: "int \<Rightarrow> credit_buffer \<Rightarrow> (nat, credit_buffer) outcome" where
  "cb_peek thresh s =
     (case new_event (PyInt thresh) s of (e, s1) \<Rightarrow>
        sbind (cb_trigger_peek (s1\<lparr>cb_peek_queue := cb_peek_queue s1 @ [e]\<rparr>))
          (\<lambda>_ s2. Returned e s2))"

section \<open>Components/Buffers.py: Buffer\<close>

text \<open>\<open>BasePacket.getBytes\<close> and \<open>getTicks\<close>, on the item of a request.\<close>

definition getBytes :: "pyval \<Rightarrow> py_error + int" where
  "getBytes item =
     (case item of PyPkt p \<Rightarrow> Inr (payloadBytes p + headerBytes p) | _ \<Rightarrow> Inl AttributeError)"

definition getTicks :: "pyval \<Rightarrow> int \<Rightarrow> py_error + (int \<times> int)" where
  "getTicks item bytesPerCycle =
     ebind (getBytes item) (\<lambda>b.
       if bytesPerCycle = 0 then Inl ZeroDivisionError
       else Inr (- ((- b) div bytesPerCycle), 0))"

text \<open>
  A \<open>Buffer\<close> is a simpy \<open>Store\<close> (\<open>_capacity\<close>, \<open>items\<close>, \<open>put_queue\<close>, \<open>get_queue\<close>)
  with a queue of peek requests, its delays and its counters.
\<close>

record buffer = "buffer_callback sim_env" +
  capacity :: int
  items :: "pyval list"
  put_queue :: "nat list"
  get_queue :: "nat list"
  peek_queue :: "nat list"
  putDelay :: int
  getDelay :: int
  putDebt :: int
  getDebt :: int
  putBytesPerCycle :: int
  getBytesPerCycle :: int
  lastActivity :: int
  firstActivity :: "int option"
  totalWrBits :: int
  totalRdBits :: int

definition lift :: "py_error + 'r \<Rightarrow> 's \<Rightarrow> ('r, 's) outcome" where
  "lift r s = (case r of Inl e \<Rightarrow> Raised e s | Inr v \<Rightarrow> Returned v s)"

definition addPrePutDelay :: "pyval \<Rightarrow> buffer \<Rightarrow> int" where
  "addPrePutDelay item s = putDelay s * simTicksPerCycle s"

definition addPostPutDelay :: "pyval \<Rightarrow> buffer \<Rightarrow> py_error + int" where
  "addPostPutDelay item s =
     ebind (getTicks item (putBytesPerCycle s)) (\<lambda>(ticks, debt).
       Inr ((ticks + (putDebt s + debt)) * simTicksPerCycle s))"

definition addPreGetDelay :: "pyval \<Rightarrow> buffer \<Rightarrow> int" where
  "addPreGetDelay item s = getDelay s * simTicksPerCycle s"

definition addPostGetDelay :: "pyval \<Rightarrow> buffer \<Rightarrow> py_error + int" where
  "addPostGetDelay item s =
     ebind (getTicks item (getBytesPerCycle s)) (\<lambda>(ticks, debt). Inr (ticks * simTicksPerCycle s))"

definition updatePutDebt :: "pyval \<Rightarrow> buffer \<Rightarrow> (unit, buffer) outcome" where
  "updatePutDebt item s =
     sbind (lift (getTicks item (putBytesPerCycle s)) s) (\<lambda>(ticks, debt) s.
       Returned () (s\<lparr>putDebt := (putDebt s + debt) - (putDebt s + debt)\<rparr>))"

definition updateGetDebt :: "pyval \<Rightarrow> buffer \<Rightarrow> (unit, buffer) outcome" where
  "updateGetDebt item s =
     sbind (lift (getTicks item (getBytesPerCycle s)) s) (\<lambda>(ticks, debt) s.
       Returned () (s\<lparr>getDebt := (getDebt s + debt) - (getDebt s + debt)\<rparr>))"

definition updateTotalWrBits :: "nat \<Rightarrow> buffer \<Rightarrow> (unit, buffer) outcome" where
  "updateTotalWrBits e s =
     sbind (lift (getBytes (ev_item (events s e))) s) (\<lambda>b s.
       Returned () (s\<lparr>totalWrBits := totalWrBits s + b * 8\<rparr>))"

definition updateTotalRdBits :: "nat \<Rightarrow> buffer \<Rightarrow> (unit, buffer) outcome" where
  "updateTotalRdBits e s =
     (case ev_value (events s e) of
        None \<Rightarrow> Raised AttributeError s
      | Some v \<Rightarrow>
          sbind (lift (getBytes v) s) (\<lambda>b s.
            Returned () (s\<lparr>totalRdBits := totalRdBits s + b * 8\<rparr>)))"

subsection \<open>Peek\<close>

text \<open>
  \<open>Buffer._do_peek\<close> returns \<open>None\<close>, so \<open>proceed\<close> is falsy. \<open>Buffer._trigger_peek\<close>:
  \<open>idx\<close> is the scan position; the element popped at \<open>idx\<close> is compared with the
  scanned request, and the model returns the requests on which \<open>_do_peek\<close> was
  called, in order, as a record of the scan.
\<close>

definition do_peek :: "nat \<Rightarrow> buffer \<Rightarrow> (bool, buffer) outcome" where
  "do_peek e s =
     (if items s \<noteq> [] then sbind (succeed e (hd (items s)) 0 s) (\<lambda>_ s'. Returned False s')
      else Returned False s)"

function trigger_peek_loop ::
  "nat \<Rightarrow> nat list \<Rightarrow> buffer \<Rightarrow> (nat list, buffer) outcome" where
  "trigger_peek_loop idx checked s =
     (if idx < length (peek_queue s) then
        (let peek_event = peek_queue s ! idx
         in case do_peek peek_event s of
              Raised err s1 \<Rightarrow> Raised err s1
            | Returned proceed s1 \<Rightarrow>
                (case (if \<not> triggered s1 peek_event then Returned (idx + 1) s1
                       else if \<not> idx < length (peek_queue s1) then Raised IndexError s1
                       else if peek_queue s1 ! idx \<noteq> peek_event
                         then Raised RuntimeError (s1\<lparr>peek_queue := list_pop (peek_queue s1) idx\<rparr>)
                       else Returned idx (s1\<lparr>peek_queue := list_pop (peek_queue s1) idx\<rparr>)) of
                   Raised err s2 \<Rightarrow> Raised err s2
                 | Returned idx' s2 \<Rightarrow>
                     if \<not> proceed then Returned (checked @ [peek_event]) s2
                     else trigger_peek_loop idx' (checked @ [peek_event]) s2))
      else Returned checked s)"
  by pat_completeness auto
termination
  by (relation "{}")
     (auto simp: do_peek_def sbind_def succeed_def split: if_splits)

definition trigger_peek :: "buffer \<Rightarrow> (nat list, buffer) outcome" where
  "trigger_peek s = trigger_peek_loop 0 [] s"

subsection \<open>Get\<close>

text \<open>\<open>Buffer._remove_packet\<close>: \<open>items.pop(0)\<close>, then the log message, which computes the read time.\<close>

definition remove_packet :: "nat \<Rightarrow> buffer \<Rightarrow> (unit, buffer) outcome" where
  "remove_packet e s =
     (case items s of
        [] \<Rightarrow> Raised IndexError s
      | item # rest \<Rightarrow>
          sbind (lift (addPostGetDelay item (s\<lparr>items := rest\<rparr>)) (s\<lparr>items := rest\<rparr>))
            (\<lambda>_ s'. Returned () s'))"

text \<open>The body of \<open>Buffer._do_get\<close> before its \<open>return None\<close>.\<close>

definition do_get_body :: "nat \<Rightarrow> buffer \<Rightarrow> (unit, buffer) outcome" where
  "do_get_body e s =
     (if items s \<noteq> [] then
        (let item = hd (items s); pregetdelay = addPreGetDelay item s
         in sbind (if pregetdelay \<noteq> 0 then
                     sbind (add_callbacks e [Cb_remove_packet, Cb_trigger_put, Cb_updateTotalRdBits] s)
                       (\<lambda>_ s. sbind (succeed e item pregetdelay s) (\<lambda>_ s. Returned () s))
                   else
                     sbind (add_callbacks e [Cb_trigger_put, Cb_updateTotalRdBits] s)
                       (\<lambda>_ s. sbind (remove_packet e s)
                       (\<lambda>_ s. sbind (succeed e item pregetdelay s) (\<lambda>_ s. Returned () s))))
              (\<lambda>_ s. updateGetDebt item s))
      else Returned () s)"

definition do_get :: "nat \<Rightarrow> buffer \<Rightarrow> (bool, buffer) outcome" where
  "do_get e s = sbind (do_get_body e s) (\<lambda>_ s'. Returned False s')"

text \<open>
  \<open>Buffer\<close> does not define \<open>_trigger_get\<close>: it inherits it from simpy's \<open>BaseResource\<close>
  (\<open>simpy/resources/base.py\<close>), whose loop \<open>Buffer._trigger_peek\<close> repeats line for
  line with \<open>get_queue\<close> and \<open>_do_get\<close> in place of \<open>peek_queue\<close> and \<open>_do_peek\<close>.
\<close>

function trigger_get_loop ::
  "nat \<Rightarrow> nat list \<Rightarrow> buffer \<Rightarrow> (nat list, buffer) outcome" where
  "trigger_get_loop idx checked s =
     (if idx < length (get_queue s) then
        (let get_event = get_queue s ! idx
         in case do_get get_event s of
              Raised err s1 \<Rightarrow> Raised err s1
            | Returned proceed s1 \<Rightarrow>
                (case (if \<not> triggered s1 get_event then Returned (idx + 1) s1
                       else if \<not> idx < length (get_queue s1) then Raised IndexError s1
                       else if get_queue s1 ! idx \<noteq> get_event
                         then Raised RuntimeError (s1\<lparr>get_queue := list_pop (get_queue s1) idx\<rparr>)
                       else Returned idx (s1\<lparr>get_queue := list_pop (get_queue s1) idx\<rparr>)) of
                   Raised err s2 \<Rightarrow> Raised err s2
                 | Returned idx' s2 \<Rightarrow>
                     if \<not> proceed then Returned (checked @ [get_event]) s2
                     else trigger_get_loop idx' (checked @ [get_event]) s2))
      else Returned checked s)"
  by pat_completeness auto
termination
  by (relation "{}") (auto simp: do_get_def sbind_def split: outcome.splits)

definition trigger_get :: "buffer \<Rightarrow> (nat list, buffer) outcome" where
  "trigger_get s = trigger_get_loop 0 [] s"

subsection \<open>Put\<close>

text \<open>\<open>Buffer._insert_packet\<close>: append the item, then the log message, which computes the write time.\<close>

definition insert_packet :: "nat \<Rightarrow> buffer \<Rightarrow> (unit, buffer) outcome" where
  "insert_packet e s =
     (let item = ev_item (events s e); s1 = s\<lparr>items := items s @ [item]\<rparr>
      in sbind (lift (addPostPutDelay item s1) s1) (\<lambda>_ s'. Returned () s'))"

text \<open>The body of \<open>Buffer._do_put\<close> before its \<open>return None\<close>.\<close>

definition do_put_body :: "nat \<Rightarrow> buffer \<Rightarrow> (unit, buffer) outcome" where
  "do_put_body e s =
     (if int (length (items s)) < capacity s then
        (let item = ev_item (events s e); preputdelay = addPrePutDelay item s
         in sbind (lift (addPostPutDelay item s) s) (\<lambda>postputdelay s.
            sbind (add_callbacks e [Cb_updateTotalWrBits] s) (\<lambda>_ s.
            sbind (if preputdelay \<noteq> 0 then
                     (case new_event item s of (ev, s) \<Rightarrow>
                        sbind (add_callbacks ev [Cb_insert_packet, Cb_trigger_get, Cb_trigger_peek] s)
                          (\<lambda>_ s. sbind (succeed ev PyNone preputdelay s)
                          (\<lambda>_ s. sbind (succeed e PyNone postputdelay s) (\<lambda>_ s. Returned () s))))
                   else
                     sbind (succeed e PyNone postputdelay s)
                       (\<lambda>_ s. sbind (insert_packet e s)
                       (\<lambda>_ s. sbind (trigger_get s)
                       (\<lambda>_ s. sbind (trigger_peek s) (\<lambda>_ s. Returned () s))))) (\<lambda>_ s.
            sbind (updatePutDebt item (s\<lparr>lastActivity := env_now s + postputdelay\<rparr>)) (\<lambda>_ s.
            Returned () (if firstActivity s = None then s\<lparr>firstActivity := Some (env_now s)\<rparr>
                         else s))))))
      else Returned () s)"

definition do_put :: "nat \<Rightarrow> buffer \<Rightarrow> (bool, buffer) outcome" where
  "do_put e s = sbind (do_put_body e s) (\<lambda>_ s'. Returned False s')"

text \<open>
  \<open>_trigger_put\<close> is likewise inherited from simpy's \<open>BaseResource\<close>: the same loop
  with \<open>put_queue\<close> and \<open>_do_put\<close>.
\<close>

function trigger_put_loop ::
  "nat \<Rightarrow> nat list \<Rightarrow> buffer \<Rightarrow> (nat list, buffer) outcome" where
  "trigger_put_loop idx checked s =
     (if idx < length (put_queue s) then
        (let put_event = put_queue s ! idx
         in case do_put put_event s of
              Raised err s1 \<Rightarrow> Raised err s1
            | Returned proceed s1 \<Rightarrow>
                (case (if \<not> triggered s1 put_event then Returned (idx + 1) s1
                       else if \<not> idx < length (put_queue s1) then Raised IndexError s1
                       else if put_queue s1 ! idx \<noteq> put_event
                         then Raised RuntimeError (s1\<lparr>put_queue := list_pop (put_queue s1) idx\<rparr>)
                       else Returned idx (s1\<lparr>put_queue := list_pop (put_queue s1) idx\<rparr>)) of
                   Raised err s2 \<Rightarrow> Raised err s2
                 | Returned idx' s2 \<Rightarrow>
                     if \<not> proceed then Returned (checked @ [put_event]) s2
                     else trigger_put_loop idx' (checked @ [put_event]) s2))
      else Returned checked s)"
  by pat_completeness auto
termination
  by (relation "{}") (auto simp: do_put_def sbind_def split: outcome.splits)

definition trigger_put :: "buffer \<Rightarrow> (nat list, buffer) outcome" where
  "trigger_put s = trigger_put_loop 0 [] s"

subsection \<open>Requests and callbacks\<close>

text \<open>
  \<open>Buffer.put(item)\<close>, \<open>get()\<close> and \<open>peek()\<close> create a \<open>BufferPut\<close>, \<open>BufferGet\<close> or
  \<open>BufferPeek\<close>: the new request is appended to its queue and the trigger routine of
  that queue runs at once. The result is the request.
\<close>

definition put :: "pyval \<Rightarrow> buffer \<Rightarrow> (nat, buffer) outcome" where
  "put item s =
     (case new_event item s of (e, s1) \<Rightarrow>
        sbind (trigger_put (s1\<lparr>put_queue := put_queue s1 @ [e]\<rparr>)) (\<lambda>_ s2. Returned e s2))"

definition get :: "buffer \<Rightarrow> (nat, buffer) outcome" where
  "get s =
     (case new_event PyNone s of (e, s1) \<Rightarrow>
        sbind (trigger_get (s1\<lparr>get_queue := get_queue s1 @ [e]\<rparr>)) (\<lambda>_ s2. Returned e s2))"

definition peek :: "buffer \<Rightarrow> (nat, buffer) outcome" where
  "peek s =
     (case new_event PyNone s of (e, s1) \<Rightarrow>
        sbind (trigger_peek (s1\<lparr>peek_queue := peek_queue s1 @ [e]\<rparr>)) (\<lambda>_ s2. Returned e s2))"

text \<open>What each callback of a buffer's events does when the environment calls it.\<close>

definition run_buffer_callback :: "buffer_callback \<Rightarrow> nat \<Rightarrow> buffer \<Rightarrow> (unit, buffer) outcome" where
  "run_buffer_callback cb e s =
     (case cb of
        Cb_insert_packet \<Rightarrow> insert_packet e s
      | Cb_remove_packet \<Rightarrow> remove_packet e s
      | Cb_trigger_put \<Rightarrow> sbind (trigger_put s) (\<lambda>_ s'. Returned () s')
      | Cb_trigger_get \<Rightarrow> sbind (trigger_get s) (\<lambda>_ s'. Returned () s')
      | Cb_trigger_peek \<Rightarrow> sbind (trigger_peek s) (\<lambda>_ s'. Returned () s')
      | Cb_updateTotalWrBits \<Rightarrow> updateTotalWrBits e s
      | Cb_updateTotalRdBits \<Rightarrow> updateTotalRdBits e s)"

definition buffer_step :: "buffer \<Rightarrow> (unit, buffer) outcome" where
  "buffer_step s = step run_buffer_callback s"

text \<open>\<open>Buffer.__init__\<close> on a new environment, with the constructor's defaults for the rest.\<close>

definition Buffer_init :: "int \<Rightarrow> int \<Rightarrow> int \<Rightarrow> int \<Rightarrow> buffer" where
  "Buffer_init tpc cap pd gd =
     \<lparr>env_now = 0, env_eid = 0, env_queue = [],
      events = (\<lambda>_. \<lparr>ev_value = None, ev_ok = None, ev_item = PyNone, ev_callbacks = Some []\<rparr>),
      nrefs = 0, simTicksPerCycle = tpc,
      capacity = cap, items = [], put_queue = [], get_queue = [], peek_queue = [],
      putDelay = pd, getDelay = gd, putDebt = 0, getDebt = 0,
      putBytesPerCycle = 16, getBytesPerCycle = 16,
      lastActivity = 0, firstActivity = None, totalWrBits = 0, totalRdBits = 0\<rparr>"

section \<open>Components/Pipelines.py: Pipeline\<close>

text \<open>
  The methods of a pipeline that are registered as callbacks; \<open>Cb_resume p\<close> is the
  \<open>_resume\<close> of the process \<open>p\<close> that runs the generator \<open>_putdelay\<close>.
\<close>

datatype pipeline_callback =
  Cb_putReady | Cb_postPutMsg | Cb_updateTotalBitsSent | Cb_resume nat

record pipeline = "pipeline_callback sim_env" +
  pl_put_queue :: "nat list"
  putBusy :: bool
  pl_putDebt :: int
  pl_putBytesPerCycle :: int
  depth :: int
  totalBitsSent :: int
  pl_firstActivity :: "int option"
  pl_lastActivity :: "int option"

definition pl_addPostPutDelay :: "pyval \<Rightarrow> pipeline \<Rightarrow> py_error + int" where
  "pl_addPostPutDelay item s =
     ebind (getTicks item (pl_putBytesPerCycle s)) (\<lambda>(ticks, debt).
       Inr ((ticks + (pl_putDebt s + debt)) * simTicksPerCycle s))"

definition pl_updatePutDebt :: "pyval \<Rightarrow> pipeline \<Rightarrow> (unit, pipeline) outcome" where
  "pl_updatePutDebt item s =
     sbind (lift (getTicks item (pl_putBytesPerCycle s)) s) (\<lambda>(ticks, debt) s.
       Returned () (s\<lparr>pl_putDebt := (pl_putDebt s + debt) - (pl_putDebt s + debt)\<rparr>))"

text \<open>
  \<open>self.env.process(self._putdelay(pkt))\<close>: simpy creates the process, a pending event
  (its \<open>item\<close> here records the generator's argument), and an \<open>Initialize\<close> event that
  is already triggered, carries the process's \<open>_resume\<close> and is scheduled as URGENT.
  The generator's body runs when the environment processes that event.
\<close>

definition process :: "pyval \<Rightarrow> pipeline \<Rightarrow> (nat, pipeline) outcome" where
  "process arg s =
     (case new_event arg s of (p, s1) \<Rightarrow>
        Returned p
          (schedule (nrefs s1) URGENT 0
             (s1\<lparr>events := (events s1)(nrefs s1 :=
                     \<lparr>ev_value = Some PyNone, ev_ok = Some True, ev_item = PyNone,
                      ev_callbacks = Some [Cb_resume p]\<rparr>),
                  nrefs := Suc (nrefs s1)\<rparr>)))"

text \<open>The body of \<open>Pipeline._do_put\<close>; the method returns \<open>None\<close>.\<close>

definition pl_do_put_body :: "nat \<Rightarrow> pipeline \<Rightarrow> (unit, pipeline) outcome" where
  "pl_do_put_body e s =
     (let pkt = ev_item (events s e)
      in sbind (lift (pl_addPostPutDelay pkt s) s) (\<lambda>ticks s.
         sbind (add_callbacks e [Cb_postPutMsg] s) (\<lambda>_ s.
         sbind (add_callbacks e [Cb_updateTotalBitsSent] s) (\<lambda>_ s.
         sbind (lift (pl_addPostPutDelay pkt s) s) (\<lambda>_ s.
         sbind (succeed e PyNone ticks s) (\<lambda>_ s.
         sbind (process pkt s) (\<lambda>_ s.
         pl_updatePutDebt pkt
           (if pl_firstActivity s = None then s\<lparr>pl_firstActivity := Some (env_now s)\<rparr>
            else s))))))))"

definition pl_do_put :: "nat \<Rightarrow> pipeline \<Rightarrow> (bool, pipeline) outcome" where
  "pl_do_put e s = sbind (pl_do_put_body e s) (\<lambda>_ s'. Returned False s')"

function pl_trigger_put_loop ::
  "nat \<Rightarrow> nat list \<Rightarrow> pipeline \<Rightarrow> (nat list, pipeline) outcome" where
  "pl_trigger_put_loop idx checked s =
     (if idx < length (pl_put_queue s) then
        (let put_event = pl_put_queue s ! idx
         in case pl_do_put put_event s of
              Raised err s1 \<Rightarrow> Raised err s1
            | Returned proceed s1 \<Rightarrow>
                (case (if \<not> triggered s1 put_event then Returned (idx + 1) s1
                       else if \<not> idx < length (pl_put_queue s1) then Raised IndexError s1
                       else if pl_put_queue s1 ! idx \<noteq> put_event
                         then Raised RuntimeError
                                (s1\<lparr>pl_put_queue := list_pop (pl_put_queue s1) idx\<rparr>)
                       else Returned idx (s1\<lparr>pl_put_queue := list_pop (pl_put_queue s1) idx\<rparr>)) of
                   Raised err s2 \<Rightarrow> Raised err s2
                 | Returned idx' s2 \<Rightarrow>
                     if \<not> proceed then Returned (checked @ [put_event]) s2
                     else pl_trigger_put_loop idx' (checked @ [put_event]) s2))
      else Returned checked s)"
  by pat_completeness auto
termination
  by (relation "{}") (auto simp: pl_do_put_def sbind_def split: outcome.splits)

definition pl_trigger_put :: "pipeline \<Rightarrow> (nat list, pipeline) outcome" where
  "pl_trigger_put s = pl_trigger_put_loop 0 [] s"

text \<open>\<open>Pipeline.put(item)\<close>, that is \<open>PipelinePut(self, item)\<close>.\<close>

definition pl_put :: "pyval \<Rightarrow> pipeline \<Rightarrow> (nat, pipeline) outcome" where
  "pl_put item s =
     (case new_event item s of (e, s1) \<Rightarrow>
        sbind (add_callbacks e [Cb_putReady] (s1\<lparr>pl_put_queue := pl_put_queue s1 @ [e]\<rparr>))
          (\<lambda>_ s2. sbind (pl_trigger_put s2) (\<lambda>_ s3. Returned e s3)))"

section \<open>The queue discipline, stated\<close>

text \<open>
  \<open>head_of_line queue checked pending\<close>: the requests on which the hook was called are
  a prefix of the queue as it was, in order, and one of them that is left pending is
  the last one checked.
\<close>

definition head_of_line :: "nat list \<Rightarrow> nat list \<Rightarrow> (nat \<Rightarrow> bool) \<Rightarrow> bool" where
  "head_of_line queue checked pending =
     (\<exists>k \<le> length queue. checked = take k queue
        \<and> (\<forall>i < k. pending (queue ! i) \<longrightarrow> Suc i = k))"

text \<open>
  \<open>later_untouched queue pending\<close>: behind a request that is pending, every request of
  the queue is pending.
\<close>

definition later_untouched :: "nat list \<Rightarrow> (nat \<Rightarrow> bool) \<Rightarrow> bool" where
  "later_untouched queue pending =
     (\<forall>i j. i < j \<and> j < length queue \<and> pending (queue ! i) \<longrightarrow> pending (queue ! j))"

text \<open>
  The queue invariant: the queued requests are distinct events that exist and are not
  triggered.
\<close>

definition pending :: "('cb, 'a) sim_env_scheme \<Rightarrow> nat \<Rightarrow> bool" where
  "pending s e = (\<not> triggered s e)"

definition all_pending :: "('cb, 'a) sim_env_scheme \<Rightarrow> nat list \<Rightarrow> bool" where
  "all_pending s q = (distinct q \<and> list_all (\<lambda>e. e < nrefs s \<and> pending s e) q)"

definition queued :: "buffer \<Rightarrow> nat list" where
  "queued s = put_queue s @ get_queue s @ peek_queue s"

text \<open>
  \<open>touches E s s'\<close>, the footprint of a buffer operation on the requests: the queues
  of \<open>s'\<close> are those of \<open>s\<close> without some leading requests, which are triggered in
  \<open>s'\<close>; no event is un-triggered; and an existing event that differs is in \<open>E\<close> or is
  one of the removed requests.
\<close>

definition touches :: "nat set \<Rightarrow> buffer \<Rightarrow> buffer \<Rightarrow> bool" where
  "touches E s s' =
     (nrefs s \<le> nrefs s' \<and> (\<forall>x. triggered s x \<longrightarrow> triggered s' x)
      \<and> (\<exists>kp kg kk.
            put_queue s' = drop kp (put_queue s) \<and> get_queue s' = drop kg (get_queue s)
            \<and> peek_queue s' = drop kk (peek_queue s)
            \<and> (\<forall>x \<in> set (take kp (put_queue s)) \<union> set (take kg (get_queue s))
                      \<union> set (take kk (peek_queue s)). triggered s' x)
            \<and> (\<forall>x. x < nrefs s \<and> events s' x \<noteq> events s x \<longrightarrow>
                  x \<in> E \<or> x \<in> set (take kp (put_queue s)) \<union> set (take kg (get_queue s))
                               \<union> set (take kk (peek_queue s)))))"

text \<open>A four-input, one-output crossbar that last served input 1, and four offered packets.\<close>

definition pkt :: "string \<Rightarrow> BasePacket" where
  "pkt u = \<lparr>uid = u, payloadBytes = 1, headerBytes = 1\<rparr>"

definition xb4 :: crossbar where
  "xb4 = \<lparr>inPorts = 4, outPorts = 1, lastport = [1],
          toUp = PortDict [0 \<mapsto> ''up0'', 1 \<mapsto> ''up1'', 2 \<mapsto> ''up2'', 3 \<mapsto> ''up3''],
          toDn = Component ''dn''\<rparr>"

definition pkts4 :: "BasePacket option list" where
  "pkts4 = [Some (pkt ''0''), Some (pkt ''1''), Some (pkt ''2''), Some (pkt ''3'')]"


definition wrr11 :: wrr_crossbar where
  "wrr11 = \<lparr>inPorts = 2, outPorts = 1, lastport = [- 1], toUp = PortDict Map.empty,
            toDn = PortDict Map.empty, weights = Some [1, 1], grants = [0, 0]\<rparr>"

definition up2 :: ports where
  "up2 = PortDict [0 \<mapsto> ''up0'', 1 \<mapsto> ''up1'']"

definition pkts2 :: "BasePacket option list" where
  "pkts2 = [Some (pkt ''0''), Some (pkt ''1'')]"




text \<open>A connected three-input crossbar with priorities \<open>[0, 2, 2]\<close> and three offered packets.\<close>

definition fp3 :: fp_crossbar where
  "fp3 = \<lparr>inPorts = 3, outPorts = 1, lastport = [- 1],
          toUp = PortDict [0 \<mapsto> ''up0'', 1 \<mapsto> ''up1'', 2 \<mapsto> ''up2''], toDn = Component ''dn'',
          priorities = Some [0, 2, 2], priorityClasses = Some 3,
          lastportPerClass = [[- 1], [- 1], [- 1]]\<rparr>"

definition pkts3 :: "BasePacket option list" where
  "pkts3 = [Some (pkt ''0''), Some (pkt ''1''), Some (pkt ''2'')]"

text \<open>
  Three crossbars as the constructor leaves them, with priorities \<open>[-1, -1, 0]\<close>,
  \<open>[0, 0, 1]\<close> and \<open>[-2, -1]\<close>.
\<close>

definition fp_neg :: fp_crossbar where
  "fp_neg = \<lparr>inPorts = 3, outPorts = 1, lastport = [- 1], toUp = PortDict Map.empty,
             toDn = PortDict Map.empty, priorities = Some [- 1, - 1, 0],
             priorityClasses = Some 1, lastportPerClass = [[- 1]]\<rparr>"

definition fp_pos :: fp_crossbar where
  "fp_pos = \<lparr>inPorts = 3, outPorts = 1, lastport = [- 1], toUp = PortDict Map.empty,
             toDn = PortDict Map.empty, priorities = Some [0, 0, 1],
             priorityClasses = Some 2, lastportPerClass = [[- 1], [- 1]]\<rparr>"

definition fp_neg2 :: fp_crossbar where
  "fp_neg2 = \<lparr>inPorts = 2, outPorts = 1, lastport = [- 1], toUp = PortDict Map.empty,
              toDn = PortDict Map.empty, priorities = Some [- 2, - 1],
              priorityClasses = Some 0, lastportPerClass = []\<rparr>"

text \<open>
  The connections of a three-input crossbar, and offers in which inputs 0 and 1, or
  input 2 alone, hold a packet.
\<close>

definition up3 :: ports where
  "up3 = PortDict [0 \<mapsto> ''up0'', 1 \<mapsto> ''up1'', 2 \<mapsto> ''up2'']"

definition pkts3a :: "BasePacket option list" where
  "pkts3a = [Some (pkt ''0''), Some (pkt ''1''), None]"

definition pkts3b :: "BasePacket option list" where
  "pkts3b = [None, None, Some (pkt ''2'')]"

text \<open>
  An environment at time 5 holding one pending event with one callback, that environment
  after \<open>succeed(7, delay=3)\<close>, and a credit buffer with one token and one queued peek
  request of threshold 1.
\<close>

definition blank_event :: "buffer_callback event" where
  "blank_event = \<lparr>ev_value = None, ev_ok = None, ev_item = PyNone, ev_callbacks = Some []\<rparr>"

definition env1 :: "buffer_callback sim_env" where
  "env1 = \<lparr>env_now = 5, env_eid = 0, env_queue = [],
           events = (\<lambda>_. blank_event)(0 := blank_event\<lparr>ev_callbacks := Some [Cb_trigger_get]\<rparr>),
           nrefs = 1, simTicksPerCycle = 1\<rparr>"

definition cb1 :: credit_buffer where
  "cb1 = \<lparr>env_now = 0, env_eid = 0, env_queue = [],
          events = (\<lambda>_. blank_event)(0 := blank_event\<lparr>ev_item := PyInt 1\<rparr>),
          nrefs = 1, simTicksPerCycle = 1,
          cb_capacity = 1, cb_items = [PyInt 1], cb_peek_queue = [0]\<rparr>"

definition env1' :: "buffer_callback sim_env" where
  "env1' = env1\<lparr>env_eid := 1, env_queue := [(8, NORMAL, 0, 0)],
            events := (events env1)(0 := \<lparr>ev_value = Some (PyInt 7), ev_ok = Some True,
                                            ev_item = PyNone, ev_callbacks = Some [Cb_trigger_get]\<rparr>)\<rparr>"

text \<open>
  One producer and a buffer of capacity 1 with \<open>putDelay = 2\<close> (one tick per cycle):
  the producer puts a packet at time 0, is resumed when its request is processed at
  time 1, puts a second packet, and the environment runs the three scheduled events.
\<close>

definition pkt0 :: pyval where "pkt0 = PyPkt (pkt ''0'')"

definition pkt1 :: pyval where "pkt1 = PyPkt (pkt ''1'')"

definition overflow_run :: "(unit, buffer) outcome" where
  "overflow_run =
     sbind (put pkt0 (Buffer_init 1 1 2 0)) (\<lambda>_ s.
     sbind (buffer_step s) (\<lambda>_ s.
     sbind (put pkt1 s) (\<lambda>_ s.
     sbind (buffer_step s) (\<lambda>_ s.
     sbind (buffer_step s) (\<lambda>_ s.
     buffer_step s)))))"

text \<open>
  Resources with queued requests. \<open>bq\<close>: a buffer of capacity 1 holding one packet,
  with a put request 0, a get request 1 and peek requests 2 and 3, all pending.
  \<open>bv0\<close> and \<open>bv\<close>: an empty buffer after \<open>peek()\<close>, and after the caller has then
  called \<open>succeed()\<close> on the request it got. \<open>cb3\<close>: a credit buffer with two tokens and
  peek requests of thresholds 1, 5 and 0. \<open>pl1\<close>: a pipeline with one queued put request.
\<close>

definition bq :: buffer where
  "bq = (Buffer_init 1 1 0 0)
          \<lparr>events := (\<lambda>_. blank_event)(0 := blank_event\<lparr>ev_item := pkt1\<rparr>), nrefs := 4,
           items := [pkt0], put_queue := [0], get_queue := [1], peek_queue := [2, 3]\<rparr>"

definition bv0 :: buffer where
  "bv0 = (Buffer_init 1 1 0 0)\<lparr>nrefs := 1, peek_queue := [0]\<rparr>"

definition bv :: buffer where
  "bv = bv0\<lparr>env_eid := 1, env_queue := [(0, NORMAL, 0, 0)],
            events := (events bv0)(0 := blank_event\<lparr>ev_value := Some PyNone, ev_ok := Some True\<rparr>)\<rparr>"

definition cb3 :: credit_buffer where
  "cb3 = \<lparr>env_now = 0, env_eid = 0, env_queue = [],
          events = (\<lambda>_. blank_event)
            (0 := blank_event\<lparr>ev_item := PyInt 1\<rparr>, 1 := blank_event\<lparr>ev_item := PyInt 5\<rparr>,
             2 := blank_event\<lparr>ev_item := PyInt 0\<rparr>),
          nrefs = 3, simTicksPerCycle = 1,
          cb_capacity = 4, cb_items = [PyInt 1, PyInt 1], cb_peek_queue = [0, 1, 2]\<rparr>"

definition pl1 :: pipeline where
  "pl1 = \<lparr>env_now = 0, env_eid = 0, env_queue = [],
          events = (\<lambda>_. \<lparr>ev_value = None, ev_ok = None, ev_item = PyNone, ev_callbacks = Some []\<rparr>)
            (0 := \<lparr>ev_value = None, ev_ok = None, ev_item = pkt0,
                   ev_callbacks = Some [Cb_putReady]\<rparr>),
          nrefs = 1, simTicksPerCycle = 1,
          pl_put_queue = [0], putBusy = False, pl_putDebt = 0, pl_putBytesPerCycle = 16,
          depth = 1, totalBitsSent = 0, pl_firstActivity = None, pl_lastActivity = None\<rparr>"

section \<open>Properties\<close>

subsection \<open>Fatal conditions reported through Log\<close>

text \<open>
  C1. The claim: a fatal condition reported with message type \<open>FATAL_ERROR\<close> raises an
  exception at the point of detection. The substring tested at the end of \<open>Log\<close> is
  \<open>ERRROR\<close>, which does not occur in \<open>FATAL_ERROR\<close>: the call writes the error record and
  returns normally.
\<close>

theorem Log_FATAL_ERROR_returns:
  "Log now fullname ''FATAL_ERROR'' msg [] logger
     = Inr (logger @ [(LvlError, now, fullname, msg)])"
  by (simp add: Log_def)

subsection \<open>Python helpers\<close>

lemma ebind_Inl [simp]: "ebind (Inl e) f = Inl e"
  and ebind_Inr [simp]: "ebind (Inr v) f = f v"
  by (simp_all add: ebind_def)

lemma py_index_nonneg [simp]: "0 \<le> i \<Longrightarrow> i < int (length xs) \<Longrightarrow> py_index xs i = Inr (nat i)"
  by (simp add: py_index_def)

lemma py_get_nonneg [simp]: "0 \<le> i \<Longrightarrow> i < int (length xs) \<Longrightarrow> py_get xs i = Inr (xs ! nat i)"
  by (simp add: py_get_def)

lemma py_set_nonneg [simp]:
  "0 \<le> i \<Longrightarrow> i < int (length xs) \<Longrightarrow> py_set xs i v = Inr (xs[nat i := v])"
  by (simp add: py_set_def)

lemma py_mod_pos [simp]: "b \<noteq> 0 \<Longrightarrow> py_mod a b = Inr (a mod b)"
  by (simp add: py_mod_def)

subsection \<open>Name lookups of a connected crossbar\<close>

lemma port_name_connected:
  "connected n conn \<Longrightarrow> 0 \<le> i \<Longrightarrow> i < n \<Longrightarrow> \<exists>nm. port_name n conn i = Inr nm"
proof (cases "n > 1")
  case True
  assume c: "connected n conn" and i: "0 \<le> i" "i < n"
  from c True obtain d where d: "conn = PortDict d" "\<forall>j\<in>{0..n - 1}. d j \<noteq> None"
    by (cases conn) (auto simp: connected_def list_all_iff)
  from i have "i \<in> {0..n - 1}" by simp
  with d obtain nm where "d i = Some nm" by blast
  with d True show ?thesis by (simp add: port_name_def)
next
  case False
  assume "connected n conn"
  with False show ?thesis
    by (cases conn) (auto simp: connected_def port_name_def)
qed

lemma port_name_single:
  "connected n conn \<Longrightarrow> n \<le> 1 \<Longrightarrow> \<exists>nm. port_name n conn i = Inr nm"
  by (auto simp: connected_def port_name_def split: ports.splits if_splits)

lemma emap_ok: "(\<And>x. x \<in> set xs \<Longrightarrow> \<exists>y. f x = Inr y) \<Longrightarrow> \<exists>ys. emap f xs = Inr ys"
proof (induction xs)
  case Nil
  then show ?case by simp
next
  case (Cons a xs)
  then obtain y ys where "f a = Inr y" "emap f xs = Inr ys"
    by (meson list.set_intros)
  then show ?case by simp
qed

lemma activeports_range: "i \<in> set (activeports pktList) \<Longrightarrow> 0 \<le> i \<and> i < int (length pktList)"
  by (auto simp: activeports_def)

lemma decision_names_ok:
  assumes "wired xb" "0 \<le> c" "c < inPorts xb" "0 \<le> outPort" "outPort < outPorts xb"
    and "length pktList = nat (inPorts xb)"
  shows "decision_names xb (activeports pktList) c outPort = Inr ()"
proof -
  from assms obtain a where a: "port_name (inPorts xb) (toUp xb) c = Inr a"
    using port_name_connected [of "inPorts xb" "toUp xb" c] by (auto simp: wired_def)
  from assms obtain b where b: "port_name (outPorts xb) (toDn xb) outPort = Inr b"
    using port_name_connected [of "outPorts xb" "toDn xb" outPort] by (auto simp: wired_def)
  have "\<exists>ys. emap (port_name (inPorts xb) (toUp xb)) (activeports pktList) = Inr ys"
  proof (rule emap_ok)
    fix x assume "x \<in> set (activeports pktList)"
    then have "0 \<le> x \<and> x < inPorts xb" using activeports_range [of x pktList] assms by auto
    then show "\<exists>y. port_name (inPorts xb) (toUp xb) x = Inr y"
      using port_name_connected [of "inPorts xb" "toUp xb" x] assms by (auto simp: wired_def)
  qed
  then obtain ys where ys: "emap (port_name (inPorts xb) (toUp xb)) (activeports pktList) = Inr ys" ..
  from assms obtain z where z: "port_name (inPorts xb) (toUp xb) 0 = Inr z"
    using port_name_connected [of "inPorts xb" "toUp xb" 0] by (auto simp: wired_def)
  show ?thesis by (simp add: decision_names_def a b ys z)
qed

subsection \<open>Round-robin arbitration\<close>

lemma mod_step: "((a + 1) mod n + int j) mod n = (a + int (Suc j)) mod (n::int)"
  by (simp add: mod_simps ac_simps)

lemma wired_lastport [simp]: "wired (xb\<lparr>lastport := lp\<rparr>) = wired xb"
  by (simp add: wired_def)

lemma rr_scan_none:
  assumes "1 \<le> inPorts xb" "length pktList = nat (inPorts xb)"
    and "0 \<le> cand" "cand < inPorts xb" "0 \<le> count"
    and "\<forall>j < nat (inPorts xb - count). pktList ! nat ((cand + int j) mod inPorts xb) = None"
  shows "rr_scan xb pktList outPort count cand = Inr (None, xb)"
  using assms
proof (induction xb pktList outPort count cand rule: rr_scan.induct)
  case (1 xb pktList outPort count candidate)
  show ?case
  proof (cases "count < inPorts xb")
    case False
    then show ?thesis by (subst rr_scan.simps) simp
  next
    case True
    have here: "pktList ! nat candidate = None"
      using "1.prems"(6) [rule_format, of 0] True "1.prems" by simp
    have nxt: "\<forall>j < nat (inPorts xb - (count + 1)).
        pktList ! nat (((candidate + 1) mod inPorts xb + int j) mod inPorts xb) = None"
    proof (intro allI impI)
      fix j assume j: "j < nat (inPorts xb - (count + 1))"
      have "((candidate + 1) mod inPorts xb + int j) mod inPorts xb
              = (candidate + int (Suc j)) mod inPorts xb"
        by (rule mod_step)
      moreover have "Suc j < nat (inPorts xb - count)" using j by linarith
      ultimately show "pktList ! nat (((candidate + 1) mod inPorts xb + int j) mod inPorts xb) = None"
        using "1.prems"(6) by metis
    qed
    have ih: "rr_scan xb pktList outPort (count + 1) ((candidate + 1) mod inPorts xb) = Inr (None, xb)"
      using "1.IH" [of None "(candidate + 1) mod inPorts xb"] True "1.prems" here nxt
      by (simp add: truthy_def)
    show ?thesis
      using True "1.prems" here ih by (subst rr_scan.simps) (simp add: truthy_def)
  qed
qed

lemma rr_scan_found:
  assumes "wired xb" "1 \<le> inPorts xb" "length pktList = nat (inPorts xb)"
    and "0 \<le> outPort" "outPort < outPorts xb" "length (lastport xb) = nat (outPorts xb)"
    and "0 \<le> cand" "cand < inPorts xb" "0 \<le> count"
    and "k < nat (inPorts xb - count)"
    and "pktList ! nat ((cand + int k) mod inPorts xb) \<noteq> None"
    and "\<forall>j < k. pktList ! nat ((cand + int j) mod inPorts xb) = None"
  shows "rr_scan xb pktList outPort count cand
           = Inr (Some ((cand + int k) mod inPorts xb),
                  xb\<lparr>lastport := (lastport xb)[nat outPort := (cand + int k) mod inPorts xb]\<rparr>)"
  using assms(7-12)
proof (induction k arbitrary: count cand)
  case 0
  then have c: "count < inPorts xb" and p: "pktList ! nat cand \<noteq> None" by auto
  have dn: "decision_names (xb\<lparr>lastport := (lastport xb)[nat outPort := cand]\<rparr>)
              (activeports pktList) cand outPort = Inr ()"
    using decision_names_ok [of "xb\<lparr>lastport := (lastport xb)[nat outPort := cand]\<rparr>" cand outPort pktList]
      assms(1-6) 0 by simp
  show ?case
    using c p 0 assms(1-6) dn by (subst rr_scan.simps) (simp add: truthy_def)
next
  case (Suc k)
  then have c: "count < inPorts xb" by auto
  have here: "pktList ! nat cand = None"
    using Suc.prems(6) [rule_format, of 0] Suc.prems by simp
  let ?c' = "(cand + 1) mod inPorts xb"
  have eq: "\<And>j. (?c' + int j) mod inPorts xb = (cand + int (Suc j)) mod inPorts xb"
    by (rule mod_step)
  have ih: "rr_scan xb pktList outPort (count + 1) ?c'
              = Inr (Some ((?c' + int k) mod inPorts xb),
                     xb\<lparr>lastport := (lastport xb)[nat outPort := (?c' + int k) mod inPorts xb]\<rparr>)"
  proof (rule Suc.IH)
    show "0 \<le> ?c'" "?c' < inPorts xb" using assms(2) by simp_all
    show "0 \<le> count + 1" using Suc.prems by simp
    show "k < nat (inPorts xb - (count + 1))" using Suc.prems by linarith
    show "pktList ! nat ((?c' + int k) mod inPorts xb) \<noteq> None"
      unfolding eq by (rule Suc.prems(5))
    show "\<forall>j<k. pktList ! nat ((?c' + int j) mod inPorts xb) = None"
      unfolding eq using Suc.prems(6) by auto
  qed
  show ?case
    using c here Suc.prems assms(1-6) ih
    by (subst rr_scan.simps) (simp add: truthy_def eq)
qed

lemma cyc_inj:
  assumes "(s + int a) mod n = (s + int b) mod n" "a < nat n" "b < nat n"
  shows "a = b"
proof -
  have "n dvd (s + int a) - (s + int b)" using assms(1) by (simp add: mod_eq_dvd_iff)
  then have d: "n dvd int a - int b" by simp
  have "\<bar>int a - int b\<bar> < n" using assms(2,3) by linarith
  with d have "int a - int b = 0"
    using zdvd_not_zless [of "\<bar>int a - int b\<bar>" n] by (cases "int a - int b = 0") auto
  then show ?thesis by simp
qed

lemma cyc_hit:
  assumes "0 \<le> i" "i < n"
  shows "(s + int (nat ((i - s) mod n))) mod n = i" "nat ((i - s) mod n) < nat n"
proof -
  have n: "0 < n" using assms by linarith
  then have "0 \<le> (i - s) mod n" by simp
  then have "(s + int (nat ((i - s) mod n))) mod n = (s + (i - s) mod n) mod n" by simp
  also have "\<dots> = (s + (i - s)) mod n" by (simp add: mod_simps)
  also have "\<dots> = i" using assms by simp
  finally show "(s + int (nat ((i - s) mod n))) mod n = i" .
  show "nat ((i - s) mod n) < nat n" using n by (simp add: nat_less_iff)
qed

lemma count_list_upt: "k < n \<Longrightarrow> count_list [0..<n] k = 1"
  by (induction n) (auto simp: less_Suc_eq)

lemma cyc_count:
  assumes "0 \<le> i" "i < n"
  shows "count_list (map (\<lambda>k. Some ((s + int k) mod n)) [0..<nat n]) (Some i) = 1"
proof -
  let ?f = "\<lambda>k. Some ((s + int k) mod n)"
  let ?k = "nat ((i - s) mod n)"
  have inj: "inj_on ?f (set [0..<nat n])"
    by (rule inj_onI) (auto dest: cyc_inj)
  have k: "?k \<in> set [0..<nat n]" using cyc_hit(2) [OF assms] by simp
  have "count_list (map ?f [0..<nat n]) (?f ?k) = count_list [0..<nat n] ?k"
    by (rule count_list_inj_map [OF inj k])
  also have "\<dots> = 1" using k by (simp add: count_list_upt)
  finally show ?thesis using cyc_hit(1) [OF assms, of s] by simp
qed

lemma rr_arbitratePkts_none:
  assumes "1 \<le> inPorts xb" "length pktList = nat (inPorts xb)"
    and "0 \<le> outPort" "outPort < outPorts xb" "length (lastport xb) = nat (outPorts xb)"
    and "\<forall>i < length pktList. pktList ! i = None"
  shows "rr_arbitratePkts xb pktList outPort = Inr (None, xb)"
proof -
  let ?s = "(lastport xb ! nat outPort + 1) mod inPorts xb"
  have "rr_scan xb pktList outPort 0 ?s = Inr (None, xb)"
  proof (rule rr_scan_none)
    show "\<forall>j<nat (inPorts xb - 0). pktList ! nat ((?s + int j) mod inPorts xb) = None"
      using assms(1,2,6) by (simp add: nat_less_iff)
  qed (use assms in simp_all)
  then show ?thesis using assms by (simp add: rr_arbitratePkts_def)
qed

lemma rr_arbitratePkts_some:
  assumes "wired xb" "1 \<le> inPorts xb" "length pktList = nat (inPorts xb)"
    and "0 \<le> outPort" "outPort < outPorts xb" "length (lastport xb) = nat (outPorts xb)"
    and "first_present pktList (inPorts xb) ((lastport xb ! nat outPort + 1) mod inPorts xb) c"
  shows "rr_arbitratePkts xb pktList outPort
           = Inr (Some c, xb\<lparr>lastport := (lastport xb)[nat outPort := c]\<rparr>)"
proof -
  let ?s = "(lastport xb ! nat outPort + 1) mod inPorts xb"
  from assms(7) obtain k where k: "k < nat (inPorts xb)" "c = (?s + int k) mod inPorts xb"
    "pktList ! nat c \<noteq> None" "\<forall>j < k. pktList ! nat ((?s + int j) mod inPorts xb) = None"
    by (auto simp: first_present_def)
  have "rr_scan xb pktList outPort 0 ?s
          = Inr (Some ((?s + int k) mod inPorts xb),
                 xb\<lparr>lastport := (lastport xb)[nat outPort := (?s + int k) mod inPorts xb]\<rparr>)"
    by (rule rr_scan_found) (use assms k in simp_all)
  then show ?thesis using assms k by (simp add: rr_arbitratePkts_def)
qed

lemma first_present_ex:
  assumes "1 \<le> n" "length pktList = nat n" "i < length pktList" "pktList ! i \<noteq> None"
  shows "\<exists>c. first_present pktList n s c"
proof -
  let ?P = "\<lambda>k. k < nat n \<and> pktList ! nat ((s + int k) mod n) \<noteq> None"
  have i: "0 \<le> int i" "int i < n" using assms by auto
  have "?P (nat ((int i - s) mod n))"
    using cyc_hit [OF i, of s] assms(4) by simp
  then have ex: "\<exists>k. ?P k" ..
  define k where "k = (LEAST k. ?P k)"
  have Pk: "?P k" unfolding k_def by (rule LeastI_ex [OF ex])
  have "\<forall>j<k. \<not> ?P j" unfolding k_def using not_less_Least by blast
  then have "\<forall>j<k. pktList ! nat ((s + int j) mod n) = None"
    using Pk by (meson less_trans)
  with Pk have "first_present pktList n s ((s + int k) mod n)"
    unfolding first_present_def by blast
  then show ?thesis ..
qed

lemma first_present_all:
  assumes "1 \<le> n" "length pktList = nat n" "\<forall>i < length pktList. pktList ! i \<noteq> None"
    and "0 \<le> s" "s < n"
  shows "first_present pktList n s s"
  unfolding first_present_def
  using assms by (intro exI [of _ 0]) (simp add: nat_less_iff)

lemma mod_step2: "((a + 1) mod n + 1 + int k) mod n = (a + 1 + int (Suc k)) mod (n::int)"
proof -
  have "((a + 1) mod n + 1 + int k) mod n = ((a + 1) mod n + int (Suc k)) mod n"
    by (simp add: ac_simps)
  also have "\<dots> = (a + int (Suc (Suc k))) mod n" by (rule mod_step)
  also have "\<dots> = (a + 1 + int (Suc k)) mod n" by (simp add: ac_simps)
  finally show ?thesis .
qed

lemma rr_rounds_all:
  assumes "wired xb" "1 \<le> inPorts xb" "length pktList = nat (inPorts xb)"
    and "0 \<le> outPort" "outPort < outPorts xb" "length (lastport xb) = nat (outPorts xb)"
    and "\<forall>i < length pktList. pktList ! i \<noteq> None"
  shows "rr_rounds n xb pktList outPort
           = Inr (map (\<lambda>k. Some ((lastport xb ! nat outPort + 1 + int k) mod inPorts xb)) [0..<n],
                  if n = 0 then xb
                  else xb\<lparr>lastport := (lastport xb)
                         [nat outPort := (lastport xb ! nat outPort + int n) mod inPorts xb]\<rparr>)"
  using assms(1,2,3,5,6)
proof (induction n arbitrary: xb)
  case 0
  show ?case by simp
next
  case (Suc n)
  let ?N = "inPorts xb"
  let ?l = "lastport xb ! nat outPort"
  let ?s = "(?l + 1) mod ?N"
  let ?xb' = "xb\<lparr>lastport := (lastport xb)[nat outPort := ?s]\<rparr>"
  have s: "0 \<le> ?s" "?s < ?N" using Suc.prems by simp_all
  have fp: "first_present pktList ?N ?s ?s"
    by (rule first_present_all) (use Suc.prems assms(7) s in simp_all)
  have one: "rr_arbitratePkts xb pktList outPort = Inr (Some ?s, ?xb')"
    by (rule rr_arbitratePkts_some) (use Suc.prems assms(4) fp in simp_all)
  have op: "nat outPort < length (lastport xb)" using Suc.prems assms(4) by simp
  have l': "lastport ?xb' ! nat outPort = ?s" using op by simp
  have ih: "rr_rounds n ?xb' pktList outPort
           = Inr (map (\<lambda>k. Some ((?s + 1 + int k) mod ?N)) [0..<n],
                  if n = 0 then ?xb'
                  else xb\<lparr>lastport := (lastport xb)[nat outPort := (?s + int n) mod ?N]\<rparr>)"
    using Suc.IH [of ?xb'] Suc.prems op by simp
  have m: "\<And>k. (?s + 1 + int k) mod ?N = (?l + 1 + int (Suc k)) mod ?N"
    by (rule mod_step2)
  have e: "(?s + int n) mod ?N = (?l + int (Suc n)) mod ?N"
    by (rule mod_step)
  have z: "n = 0 \<Longrightarrow> ?s = (?l + int (Suc n)) mod ?N" by simp
  show ?case
    unfolding rr_rounds.simps one using ih [unfolded m e] z
    by (auto simp: map_upt_Suc simp del: upt_Suc of_nat_Suc)
qed

text \<open>
  C5. A round-robin arbitration call on a connected crossbar with \<open>N \<ge> 1\<close> inputs, for
  any output port and any value of \<open>lastport[outPort]\<close>, returns the first input that
  offers a packet, scanning cyclically from \<open>(lastport[outPort] + 1) mod N\<close>, and records
  it in \<open>lastport[outPort]\<close>; it returns \<open>None\<close> when no input offers one. When every
  input offers a packet in each of \<open>N\<close> consecutive rounds, the decisions are
  \<open>(lastport[outPort] + 1 + k) mod N\<close> for \<open>k = 0 .. N - 1\<close> in this order, so every input
  is chosen exactly once.
\<close>

theorem rr_arbitratePkts_round_robin:
  assumes "wired xb" "1 \<le> inPorts xb" "length pktList = nat (inPorts xb)"
    and "0 \<le> outPort" "outPort < outPorts xb" "length (lastport xb) = nat (outPorts xb)"
  shows
    "(if \<exists>i < length pktList. pktList ! i \<noteq> None
      then \<exists>c. first_present pktList (inPorts xb)
                  ((lastport xb ! nat outPort + 1) mod inPorts xb) c
             \<and> rr_arbitratePkts xb pktList outPort
                  = Inr (Some c, xb\<lparr>lastport := (lastport xb)[nat outPort := c]\<rparr>)
      else rr_arbitratePkts xb pktList outPort = Inr (None, xb))
     \<and> ((\<forall>i < length pktList. pktList ! i \<noteq> None) \<longrightarrow>
          (\<exists>rs xb'. rr_rounds (nat (inPorts xb)) xb pktList outPort = Inr (rs, xb')
             \<and> rs = map (\<lambda>k. Some ((lastport xb ! nat outPort + 1 + int k) mod inPorts xb))
                        [0..<nat (inPorts xb)]
             \<and> (\<forall>i. 0 \<le> i \<and> i < inPorts xb \<longrightarrow> count_list rs (Some i) = 1)))"
proof (intro conjI impI)
  show "if \<exists>i < length pktList. pktList ! i \<noteq> None
      then \<exists>c. first_present pktList (inPorts xb)
                  ((lastport xb ! nat outPort + 1) mod inPorts xb) c
             \<and> rr_arbitratePkts xb pktList outPort
                  = Inr (Some c, xb\<lparr>lastport := (lastport xb)[nat outPort := c]\<rparr>)
      else rr_arbitratePkts xb pktList outPort = Inr (None, xb)"
  proof (cases "\<exists>i < length pktList. pktList ! i \<noteq> None")
    case True
    then obtain i where "i < length pktList" "pktList ! i \<noteq> None" by blast
    then obtain c where c: "first_present pktList (inPorts xb)
                  ((lastport xb ! nat outPort + 1) mod inPorts xb) c"
      using first_present_ex [OF assms(2,3)] by blast
    with rr_arbitratePkts_some [OF assms c] True show ?thesis by auto
  next
    case False
    then have "\<forall>i < length pktList. pktList ! i = None" by simp
    from rr_arbitratePkts_none [OF assms(2-6) this] False show ?thesis by simp
  qed
next
  assume all: "\<forall>i < length pktList. pktList ! i \<noteq> None"
  have n: "nat (inPorts xb) \<noteq> 0" using assms(2) by simp
  show "\<exists>rs xb'. rr_rounds (nat (inPorts xb)) xb pktList outPort = Inr (rs, xb')
             \<and> rs = map (\<lambda>k. Some ((lastport xb ! nat outPort + 1 + int k) mod inPorts xb))
                        [0..<nat (inPorts xb)]
             \<and> (\<forall>i. 0 \<le> i \<and> i < inPorts xb \<longrightarrow> count_list rs (Some i) = 1)"
    unfolding rr_rounds_all [OF assms all]
    using cyc_count [of _ "inPorts xb" "lastport xb ! nat outPort + 1"] by simp
qed

theorem rr_arbitratePkts_round_robin_witness:
  "wired xb4 \<and> 1 \<le> inPorts xb4 \<and> length pkts4 = nat (inPorts xb4)
   \<and> (0::int) \<le> 0 \<and> 0 < outPorts xb4 \<and> length (lastport xb4) = nat (outPorts xb4)
   \<and> (\<exists>xb'. rr_arbitratePkts xb4 pkts4 0 = Inr (Some 2, xb'))
   \<and> (\<exists>xb'. rr_rounds 4 xb4 pkts4 0 = Inr ([Some 2, Some 3, Some 0, Some 1], xb'))"
proof -
  have h1: "wired xb4" by (auto simp: wired_def connected_def xb4_def list_all_iff)
  have h2: "1 \<le> inPorts xb4" by (simp add: xb4_def)
  have h3: "length pkts4 = nat (inPorts xb4)" by (simp add: xb4_def pkts4_def)
  have h4: "(0::int) \<le> 0" by simp
  have h5: "0 < outPorts xb4" by (simp add: xb4_def)
  have h6: "length (lastport xb4) = nat (outPorts xb4)" by (simp add: xb4_def)
  have all: "\<forall>i < length pkts4. pkts4 ! i \<noteq> None"
    by (simp add: pkts4_def less_Suc_eq numeral_eq_Suc all_conj_distrib)
  have n: "nat (inPorts xb4) = 4" and l: "lastport xb4 ! nat 0 = 1" and N: "inPorts xb4 = 4"
    by (simp_all add: xb4_def)
  note t = rr_arbitratePkts_round_robin [OF h1 h2 h3 h4 h5 h6]
  from t all obtain c where c: "first_present pkts4 (inPorts xb4) ((lastport xb4 ! nat 0 + 1) mod inPorts xb4) c"
    "rr_arbitratePkts xb4 pkts4 0 = Inr (Some c, xb4\<lparr>lastport := (lastport xb4)[nat 0 := c]\<rparr>)"
    by (auto split: if_splits simp: pkts4_def)
  from c(1) obtain k where k: "c = (2 + int k) mod 4"
    "\<forall>j < k. pkts4 ! nat ((2 + int j) mod 4) = None"
    unfolding first_present_def l N by auto
  have "k = 0"
  proof (rule ccontr)
    assume "k \<noteq> 0"
    then have "pkts4 ! nat ((2 + int 0) mod 4) = None" using k(2) by blast
    then show False by (simp add: pkts4_def)
  qed
  with k(1) have "c = 2" by simp
  with c(2) have a: "\<exists>xb'. rr_arbitratePkts xb4 pkts4 0 = Inr (Some 2, xb')" by blast
  from t all have b: "\<exists>xb'. rr_rounds 4 xb4 pkts4 0 = Inr ([Some 2, Some 3, Some 0, Some 1], xb')"
    unfolding n l N by (auto simp: upt_rec)
  from h1 h2 h3 h4 h5 h6 a b show ?thesis by blast
qed

subsection \<open>Weighted round-robin arbitration on a fresh crossbar\<close>

declare rr_scan.simps [simp del] wrr_scan.simps [simp del] fp_scan.simps [simp del]

lemma py_get_last: "xs \<noteq> [] \<Longrightarrow> py_get xs (- 1) = Inr (last xs)"
  by (cases xs rule: rev_cases) (simp_all add: py_get_def py_index_def)

lemma py_set_last: "xs \<noteq> [] \<Longrightarrow> py_set xs (- 1) v = Inr (xs[length xs - 1 := v])"
  by (cases xs rule: rev_cases) (simp_all add: py_set_def py_index_def)

lemma wrr_init_ok:
  "int (length ws) = n \<Longrightarrow>
   WeightedRoundRobinCrossbar_init now fullname n m ws logger
     = Inr (\<lparr>inPorts = n, outPorts = m, lastport = replicate (nat m) (- 1),
             toUp = PortDict Map.empty, toDn = PortDict Map.empty,
             weights = Some ws, grants = replicate (length ws) 0\<rparr>, logger)"
  by (auto simp: WeightedRoundRobinCrossbar_init_def Crossbar_init_def)

text \<open>
  C10. The claim: on a freshly constructed weighted-round-robin crossbar whose last
  input has weight at least 1 and offers a packet, the first arbitration call returns
  index \<open>-1\<close>. The scan does start at \<open>lastport[outPort] = -1\<close> and selects it, but with
  two or more inputs the call then looks up \<open>self.toUp[-1]\<close> for its log record; \<open>toUp\<close>
  is the dictionary filled by \<open>connect\<close>, which has no key \<open>-1\<close>, so the call raises
  KeyError instead of returning.
\<close>

theorem wrr_first_call_KeyError:
  assumes init: "WeightedRoundRobinCrossbar_init now fullname n m ws logger = Inr (xb0, logger')"
    and n: "2 \<le> n" "int (length ws) = n" and w: "1 \<le> last ws"
    and p: "length pktList = length ws" "last pktList \<noteq> None"
    and op: "0 \<le> outPort" "outPort < m"
    and d: "d (- 1) = None"
  shows "wrr_arbitratePkts (connect xb0 (PortDict d) dn) pktList outPort = Inl KeyError"
proof -
  let ?xb = "connect xb0 (PortDict d) dn"
  have xb0: "xb0 = \<lparr>inPorts = n, outPorts = m, lastport = replicate (nat m) (- 1),
             toUp = PortDict Map.empty, toDn = PortDict Map.empty,
             weights = Some ws, grants = replicate (length ws) 0\<rparr>"
    using init wrr_init_ok [OF n(2), of now fullname m logger] by simp
  have ne: "ws \<noteq> []" "pktList \<noteq> []" using n p by auto
  have len: "Suc 0 \<le> length ws" using ne by (cases ws) auto
  have f: "inPorts ?xb = n" "lastport ?xb = replicate (nat m) (- 1)" "weights ?xb = Some ws"
    "grants ?xb = replicate (length ws) 0" "toUp ?xb = PortDict d"
    by (simp_all add: xb0 connect_def)
  have l: "py_get (lastport ?xb) outPort = Inr (- 1)"
    using op by (simp add: f py_get_def py_index_def)
  have g: "py_get (replicate (length ws) (0::int)) (- 1) = Inr 0"
    using ne by (simp add: py_get_last)
  have visit: "wrr_visit ?xb (- 1) False None (replicate (length ws) 0)
                 = Inr (True, Some (- 1), replicate (length ws) 0)"
    using w ne by (simp add: wrr_visit_def get_weights_def f py_get_last g)
  have scan: "wrr_scan ?xb pktList 0 (- 1) False None (replicate (length ws) 0)
                = Inr (Some (- 1), replicate (length ws) 0)"
    apply (subst wrr_scan.simps)
    apply (simp add: f py_get_last ne truthy_def p visit)
    apply (subst wrr_scan.simps)
    using n apply simp
    done
  have names: "decision_names (?xb\<lparr>lastport := lp, grants := gs\<rparr>) act (- 1) outPort = Inl KeyError"
    for lp gs act
    using n d by (simp add: decision_names_def port_name_def f)
  show ?thesis
    unfolding wrr_arbitratePkts_def l f(4)
    using op ne len
    by (simp add: f scan py_set_last g names py_set_def py_index_def)
qed

theorem wrr_first_call_KeyError_witness:
  "WeightedRoundRobinCrossbar_init 0 ''xbar'' 2 1 [1, 1] [] = Inr (wrr11, [])
   \<and> wrr_arbitratePkts
         (connect wrr11 up2 (Component ''dn''))
         pkts2 0 = Inl KeyError"
proof -
  have i: "WeightedRoundRobinCrossbar_init 0 ''xbar'' 2 1 [1, 1] [] = Inr (wrr11, [])"
    by (simp add: WeightedRoundRobinCrossbar_init_def Crossbar_init_def wrr11_def
        numeral_eq_Suc)
  have "wrr_arbitratePkts
         (connect wrr11 up2 (Component ''dn''))
         pkts2 0 = Inl KeyError"
    unfolding up2_def pkts2_def by (rule wrr_first_call_KeyError [OF i]) simp_all
  with i show ?thesis by simp
qed

subsection \<open>Weighted round-robin arbitration under full contention\<close>

lemma wired_grants [simp]: "wired (xb\<lparr>grants := gs\<rparr>) = wired xb"
  by (simp add: wired_def)



lemma wrr_in_periodI:
  assumes "wired xb" "1 \<le> inPorts xb" "weights xb = Some ws"
    "length ws = nat (inPorts xb)" "\<forall>w \<in> set ws. 1 \<le> w"
    "0 \<le> outPort" "outPort < outPorts xb" "length (lastport xb) = nat (outPorts xb)"
    "lastport xb ! nat outPort = int l" "l < length ws" "0 \<le> c" "c \<le> ws ! l"
    "grants xb = (replicate (length ws) 0)[l := c]"
  shows "wrr_in_period xb ws outPort"
  using assms by (simp add: wrr_in_period_def Let_def list_all_iff)











text \<open>
  A freshly constructed crossbar with two or more inputs enters a period with its first
  call when input 0 offers a packet and the last input is idle.
\<close>

lemma wrr_first_call_enters_period:
  assumes init: "WeightedRoundRobinCrossbar_init now fullname n m ws logger = Inr (xb0, logger')"
    and n: "2 \<le> n" "int (length ws) = n" and w: "list_all (\<lambda>w. 1 \<le> w) ws"
    and c: "connected n up" "connected m dn"
    and op: "0 \<le> outPort" "outPort < m"
    and p: "length pktList = length ws" "pktList ! 0 \<noteq> None" "last pktList = None"
  shows "\<exists>xb'. wrr_arbitratePkts (connect xb0 up dn) pktList outPort = Inr (Some 0, xb')
           \<and> wrr_in_period xb' ws outPort"
proof -
  let ?xb = "connect xb0 up dn"
  let ?z = "replicate (length ws) (0::int)"
  have xb0: "xb0 = \<lparr>inPorts = n, outPorts = m, lastport = replicate (nat m) (- 1),
             toUp = PortDict Map.empty, toDn = PortDict Map.empty,
             weights = Some ws, grants = replicate (length ws) 0\<rparr>"
    using init wrr_init_ok [OF n(2), of now fullname m logger] by simp
  have ne: "ws \<noteq> []" "pktList \<noteq> []" using n p by auto
  have len2: "2 \<le> length ws" using n by linarith
  have f: "inPorts ?xb = n" "outPorts ?xb = m" "lastport ?xb = replicate (nat m) (- 1)"
    "weights ?xb = Some ws" "grants ?xb = ?z" "toUp ?xb = up" "toDn ?xb = dn"
    by (simp_all add: xb0 connect_def)
  have wired: "wired ?xb" using c by (simp add: wired_def f)
  have w0: "1 \<le> ws ! 0" using w ne by (cases ws) simp_all
  have l: "py_get (lastport ?xb) outPort = Inr (- 1)"
    using op by (simp add: f py_get_def py_index_def)
  have visit: "wrr_visit ?xb 0 False None ?z = Inr (True, Some 0, ?z)"
    using w0 ne by (simp add: wrr_visit_def get_weights_def f)
  have scan: "wrr_scan ?xb pktList 0 (- 1) False None ?z = Inr (Some 0, ?z)"
    apply (subst wrr_scan.simps)
    using n ne p apply (simp add: f py_get_last truthy_def)
    apply (subst wrr_scan.simps)
    using n ne p apply (simp add: f truthy_def visit)
    apply (subst wrr_scan.simps)
    apply simp
    done
  have dn: "decision_names (?xb\<lparr>lastport := lp, grants := gs\<rparr>) (activeports pktList) 0 outPort
              = Inr ()" for lp gs
    by (rule decision_names_ok) (use wired n op p f in \<open>simp_all add: wired_def\<close>)
  let ?xb' = "?xb\<lparr>lastport := (replicate (nat m) (- 1))[nat outPort := 0], grants := ?z[0 := 1]\<rparr>"
  have res: "wrr_arbitratePkts ?xb pktList outPort = Inr (Some 0, ?xb')"
    unfolding wrr_arbitratePkts_def l f(5)
    using op ne by (simp add: f scan dn)
  have inv: "wrr_in_period ?xb' ws outPort"
    by (rule wrr_in_periodI [where l = 0 and c = 1])
      (use wired n op ne w w0 f in \<open>simp_all add: list_all_iff\<close>)
  from res inv show ?thesis by blast
qed





subsection \<open>Fixed-priority arbitration\<close>

lemma foldl_max_props:
  "a \<le> foldl max a ys \<and> (\<forall>y \<in> set ys. y \<le> foldl max a ys)
   \<and> foldl max a ys \<in> set (a # ys)" for a :: int
proof (induction ys arbitrary: a)
  case Nil
  show ?case by simp
next
  case (Cons y ys)
  from Cons [of "max a y"] show ?case by (auto simp: max_def split: if_splits)
qed

lemma py_max_props:
  assumes "xs \<noteq> []"
  shows "\<exists>m. py_max xs = Inr m \<and> m \<in> set xs \<and> (\<forall>x \<in> set xs. x \<le> m)"
proof -
  from assms obtain a ys where xs: "xs = a # ys" by (cases xs) auto
  from foldl_max_props [of a ys] show ?thesis by (auto simp: py_max_def xs)
qed

lemma emap_py_get:
  "\<forall>i \<in> set is. 0 \<le> i \<and> i < int (length ps) \<Longrightarrow>
   emap (py_get ps) is = Inr (map (\<lambda>i. ps ! nat i) is)"
  by (induction "is") simp_all

lemma fp_mask_result:
  assumes "\<forall>i \<in> set ports. 0 \<le> i \<and> i < int (length ps) \<and> i < int (length pl)"
  shows "fp_mask ps m ports pl
           = Inr (map (\<lambda>i. if int i \<in> set ports \<and> ps ! i < m then None else pl ! i)
                    [0..<length pl])"
  using assms
proof (induction ports arbitrary: pl)
  case Nil
  show ?case by (simp add: map_nth)
next
  case (Cons port rest)
  let ?pl' = "if ps ! nat port < m then pl[nat port := None] else pl"
  have len: "length ?pl' = length pl" by simp
  have ih: "fp_mask ps m rest ?pl'
              = Inr (map (\<lambda>i. if int i \<in> set rest \<and> ps ! i < m then None else ?pl' ! i)
                       [0..<length ?pl'])"
    by (rule Cons.IH) (use Cons.prems in auto)
  have step: "fp_mask ps m (port # rest) pl = fp_mask ps m rest ?pl'"
    using Cons.prems by simp
  have "map (\<lambda>i. if int i \<in> set rest \<and> ps ! i < m then None else ?pl' ! i) [0..<length ?pl']
        = map (\<lambda>i. if int i \<in> set (port # rest) \<and> ps ! i < m then None else pl ! i)
            [0..<length pl]"
  proof (rule nth_equalityI)
    show "length (map (\<lambda>i. if int i \<in> set rest \<and> ps ! i < m then None else ?pl' ! i)
                    [0..<length ?pl'])
          = length (map (\<lambda>i. if int i \<in> set (port # rest) \<and> ps ! i < m then None else pl ! i)
                    [0..<length pl])"
      by simp
  next
    fix i
    assume "i < length (map (\<lambda>i. if int i \<in> set rest \<and> ps ! i < m then None else ?pl' ! i)
                    [0..<length ?pl'])"
    then have i: "i < length pl" by (simp split: if_splits)
    have p: "0 \<le> port" using Cons.prems by simp
    show "map (\<lambda>i. if int i \<in> set rest \<and> ps ! i < m then None else ?pl' ! i)
             [0..<length ?pl'] ! i
          = map (\<lambda>i. if int i \<in> set (port # rest) \<and> ps ! i < m then None else pl ! i)
             [0..<length pl] ! i"
    proof (cases "int i = port")
      case True
      then have "nat port = i" by simp
      with i True show ?thesis by (simp add: len)
    next
      case False
      then have "nat port \<noteq> i" using p by auto
      with i False show ?thesis by (simp add: len)
    qed
  qed
  with ih step show ?case by simp
qed

lemma set_activeports:
  "set (activeports pktList) = {int i | i. i < length pktList \<and> pktList ! i \<noteq> None}"
  by (auto simp: activeports_def)

lemma masked_top_class:
  assumes len: "length ps = length pl"
    and m: "\<exists>i < length pl. pl ! i \<noteq> None \<and> ps ! i = m"
    and mx: "\<forall>i < length pl. pl ! i \<noteq> None \<longrightarrow> ps ! i \<le> m"
  shows "map (\<lambda>i. if int i \<in> set (activeports pl) \<and> ps ! i < m then None else pl ! i)
           [0..<length pl]
         = top_class ps pl"
  unfolding top_class_def
proof (rule map_cong [OF refl])
  fix i assume "i \<in> set [0..<length pl]"
  then have i: "i < length pl" by simp
  from m obtain k where k: "k < length pl" "pl ! k \<noteq> None" "ps ! k = m" by blast
  show "(if int i \<in> set (activeports pl) \<and> ps ! i < m then None else pl ! i)
        = (if \<forall>j < length pl. pl ! j \<noteq> None \<longrightarrow> ps ! j \<le> ps ! i then pl ! i else None)"
  proof (cases "pl ! i = None")
    case True
    then show ?thesis by simp
  next
    case False
    with i have act: "int i \<in> set (activeports pl)" by (auto simp: set_activeports)
    show ?thesis
    proof (cases "ps ! i < m")
      case True
      with k have "\<not> (\<forall>j < length pl. pl ! j \<noteq> None \<longrightarrow> ps ! j \<le> ps ! i)"
        by (metis not_le)
      then have "(if \<forall>j < length pl. pl ! j \<noteq> None \<longrightarrow> ps ! j \<le> ps ! i then pl ! i else None)
                   = None"
        by (rule if_not_P)
      with True act show ?thesis by simp
    next
      case False
      with mx i \<open>pl ! i \<noteq> None\<close> have "ps ! i = m" by force
      with mx have "\<forall>j < length pl. pl ! j \<noteq> None \<longrightarrow> ps ! j \<le> ps ! i" by simp
      with False show ?thesis by simp
    qed
  qed
qed

lemma fp_scan_found:
  assumes wf: "fp_wf xb ps"
    and op: "0 \<le> outPort" "outPort < outPorts xb"
    and len: "length pktList = nat (inPorts xb)" "length pl = nat (inPorts xb)"
    and m: "0 \<le> m" "m < int (length (lastportPerClass xb))"
    and c: "0 \<le> cand" "cand < inPorts xb" "0 \<le> count"
    and k: "k < nat (inPorts xb - count)"
      "pl ! nat ((cand + int k) mod inPorts xb) \<noteq> None"
      "\<forall>j < k. pl ! nat ((cand + int j) mod inPorts xb) = None"
  shows "fp_scan xb (activeports pktList) pl m outPort count cand
           = Inr (Some ((cand + int k) mod inPorts xb),
                  xb\<lparr>lastport := (lastport xb)[nat outPort := (cand + int k) mod inPorts xb],
                     lastportPerClass := (lastportPerClass xb)
                       [nat m := (lastportPerClass xb ! nat m)
                          [nat outPort := (cand + int k) mod inPorts xb]]\<rparr>)"
  using c k
proof (induction k arbitrary: count cand)
  case 0
  then have cn: "count < inPorts xb" and p: "pl ! nat cand \<noteq> None" by auto
  have row: "length (lastportPerClass xb ! nat m) = nat (outPorts xb)"
    using wf m by (simp add: fp_wf_def list_all_length)
  have w: "wired xb" "length (lastport xb) = nat (outPorts xb)" "1 \<le> inPorts xb"
    using wf by (simp_all add: fp_wf_def)
  have dn: "decision_names (xb\<lparr>lastport := lp, lastportPerClass := lpc\<rparr>)
              (activeports pktList) cand outPort = Inr ()" for lp lpc
    by (rule decision_names_ok) (use w op len 0 in \<open>simp_all add: wired_def\<close>)
  show ?case
    using cn p 0 op len m row w dn
    by (subst fp_scan.simps) (simp add: truthy_def)
next
  case (Suc k)
  then have cn: "count < inPorts xb" by auto
  have N: "1 \<le> inPorts xb" using wf by (simp add: fp_wf_def)
  have here: "pl ! nat cand = None"
    using Suc.prems(6) [rule_format, of 0] Suc.prems by simp
  let ?c' = "(cand + 1) mod inPorts xb"
  have eq: "\<And>j. (?c' + int j) mod inPorts xb = (cand + int (Suc j)) mod inPorts xb"
    by (rule mod_step)
  have ih: "fp_scan xb (activeports pktList) pl m outPort (count + 1) ?c'
           = Inr (Some ((?c' + int k) mod inPorts xb),
                  xb\<lparr>lastport := (lastport xb)[nat outPort := (?c' + int k) mod inPorts xb],
                     lastportPerClass := (lastportPerClass xb)
                       [nat m := (lastportPerClass xb ! nat m)
                          [nat outPort := (?c' + int k) mod inPorts xb]]\<rparr>)"
  proof (rule Suc.IH)
    show "0 \<le> ?c'" "?c' < inPorts xb" using N by simp_all
    show "0 \<le> count + 1" using Suc.prems by simp
    show "k < nat (inPorts xb - (count + 1))" using Suc.prems by linarith
    show "pl ! nat ((?c' + int k) mod inPorts xb) \<noteq> None"
      unfolding eq by (rule Suc.prems(5))
    show "\<forall>j<k. pl ! nat ((?c' + int j) mod inPorts xb) = None"
      unfolding eq using Suc.prems(6) by auto
  qed
  show ?case
    using cn here Suc.prems len N ih
    by (subst fp_scan.simps) (simp add: truthy_def eq)
qed

lemma top_class_length [simp]: "length (top_class ps pl) = length pl"
  by (simp add: top_class_def)

lemma top_class_nth:
  "i < length pl \<Longrightarrow>
   top_class ps pl ! i = (if \<forall>j < length pl. pl ! j \<noteq> None \<longrightarrow> ps ! j \<le> ps ! i
                           then pl ! i else None)"
  unfolding top_class_def by (subst nth_map) (simp_all cong: if_cong del: not_None_eq split del: if_split)

lemma FixedPriorityCrossbar_init_fp_wf:
  assumes init: "FixedPriorityCrossbar_init now fullname n m ps logger = Inr (xb, lg)"
    and ps: "ps \<noteq> []" "int (length ps) = n" "list_all (\<lambda>p. 0 \<le> p) ps"
    and conn: "connected n up" "connected m dn"
  shows "fp_wf (connect xb up dn) ps"
proof -
  from py_max_props [OF ps(1)] obtain mx where mx: "py_max ps = Inr mx" "mx \<in> set ps"
    "\<forall>x \<in> set ps. x \<le> mx" by blast
  from mx(2) ps(3) have m0: "0 \<le> mx" by (simp add: list_all_iff)
  from init ps(1,2) mx(1) have xb: "xb = \<lparr>inPorts = n, outPorts = m,
      lastport = replicate (nat m) (- 1), toUp = PortDict Map.empty, toDn = PortDict Map.empty,
      priorities = Some ps, priorityClasses = Some (mx + 1),
      lastportPerClass = replicate (nat (mx + 1)) (replicate (nat m) (- 1))\<rparr>"
    by (simp add: FixedPriorityCrossbar_init_def Crossbar_init_def)
  have n1: "1 \<le> n" using ps(1,2) by (cases ps) auto
  have cls: "list_all (\<lambda>p. 0 \<le> p \<and> p < int (nat (mx + 1))) ps"
    using ps(3) mx(3) m0 by (auto simp: list_all_iff)
  show ?thesis
    unfolding fp_wf_def xb connect_def wired_def
    using conn n1 ps(2) cls by (auto simp: list_all_iff)
qed

text \<open>
  Where every priority class has its own row (\<open>fp_wf\<close>, so no negative priority), an
  arbitration call with at least one offered packet returns an input \<open>c\<close> that offers
  a packet and whose priority is the highest among the inputs offering one (no input
  of a lower class is chosen while a higher class has a candidate). Among the inputs
  of that top class, \<open>c\<close> is the first in cyclic order from
  \<open>(lastportPerClass[class][outPort] + 1) mod inPorts\<close>, the pointer kept for that class
  and output; the call stores \<open>c\<close> in that pointer and in \<open>lastport[outPort]\<close>, and leaves
  the caller's list with only the top class.
\<close>

theorem fp_arbitratePkts_top_class:
  assumes wf: "fp_wf xb ps"
    and len: "length pktList = nat (inPorts xb)"
    and op: "0 \<le> outPort" "outPort < outPorts xb"
    and some: "\<exists>i < length pktList. pktList ! i \<noteq> None"
  shows "\<exists>c. fp_arbitratePkts xb pktList outPort
               = Inr (Some c,
                      xb\<lparr>lastport := (lastport xb)[nat outPort := c],
                         lastportPerClass := (lastportPerClass xb)
                           [nat (ps ! nat c) := (lastportPerClass xb ! nat (ps ! nat c))
                              [nat outPort := c]]\<rparr>,
                      top_class ps pktList)
             \<and> 0 \<le> c \<and> c < inPorts xb \<and> pktList ! nat c \<noteq> None
             \<and> (\<forall>j < length pktList. pktList ! j \<noteq> None \<longrightarrow> ps ! j \<le> ps ! nat c)
             \<and> first_present (top_class ps pktList) (inPorts xb)
                  ((lastportPerClass xb ! nat (ps ! nat c) ! nat outPort + 1) mod inPorts xb) c"
proof -
  let ?N = "inPorts xb"
  let ?act = "activeports pktList"
  have N: "1 \<le> ?N" and pr: "priorities xb = Some ps" and lps: "length ps = nat ?N"
    and cls: "\<forall>p \<in> set ps. 0 \<le> p \<and> p < int (length (lastportPerClass xb))"
    and rows: "\<forall>row \<in> set (lastportPerClass xb). length row = nat (outPorts xb)"
    using wf by (simp_all add: fp_wf_def list_all_iff)
  have act_range: "\<forall>i \<in> set ?act. 0 \<le> i \<and> i < int (length ps) \<and> i < int (length pktList)"
    using len lps by (auto simp: set_activeports)
  have prios: "emap (py_get ps) ?act = Inr (map (\<lambda>i. ps ! nat i) ?act)"
    by (rule emap_py_get) (use act_range in auto)
  from some have ne: "map (\<lambda>i. ps ! nat i) ?act \<noteq> []"
    by (auto simp: activeports_def filter_empty_conv)
  from py_max_props [OF ne] obtain m where m: "py_max (map (\<lambda>i. ps ! nat i) ?act) = Inr m"
    "m \<in> set (map (\<lambda>i. ps ! nat i) ?act)" "\<forall>x \<in> set (map (\<lambda>i. ps ! nat i) ?act). x \<le> m"
    by blast
  from m(2) obtain t where t: "t < length pktList" "pktList ! t \<noteq> None" "ps ! t = m"
    by (auto simp: set_activeports)
  have mx: "\<forall>i < length pktList. pktList ! i \<noteq> None \<longrightarrow> ps ! i \<le> m"
  proof (intro allI impI)
    fix i assume "i < length pktList" "pktList ! i \<noteq> None"
    then have "ps ! nat (int i) \<in> set (map (\<lambda>i. ps ! nat i) ?act)"
      unfolding set_map set_activeports by blast
    with m(3) have "ps ! nat (int i) \<le> m" by blast
    then show "ps ! i \<le> m" by simp
  qed
  have mcls: "0 \<le> m" "m < int (length (lastportPerClass xb))"
    using cls t len lps by (metis nth_mem)+
  have mask: "fp_mask ps m ?act pktList = Inr (top_class ps pktList)"
    using fp_mask_result [OF act_range, of m]
      masked_top_class [of ps pktList m] t mx len lps by auto
  let ?pl = "top_class ps pktList"
  let ?row = "lastportPerClass xb ! nat m"
  have row: "length ?row = nat (outPorts xb)" using rows mcls by simp
  let ?s = "(?row ! nat outPort + 1) mod ?N"
  have tp: "?pl ! t \<noteq> None" using t mx by (simp add: top_class_nth)
  have "\<exists>c. first_present ?pl ?N ?s c"
    by (rule first_present_ex [OF N _ _ tp]) (use len t in simp_all)
  then obtain c where fp: "first_present ?pl ?N ?s c" ..
  then obtain k where k: "k < nat ?N" "c = (?s + int k) mod ?N" "?pl ! nat c \<noteq> None"
    "\<forall>j < k. ?pl ! nat ((?s + int j) mod ?N) = None"
    by (auto simp: first_present_def)
  have cr: "0 \<le> c" "c < ?N" using k(2) N by simp_all
  then have cn: "nat c < length pktList" using len by simp
  from k(3) cn have cp: "pktList ! nat c \<noteq> None"
    and ctop: "\<forall>j < length pktList. pktList ! j \<noteq> None \<longrightarrow> ps ! j \<le> ps ! nat c"
    by (auto simp: top_class_nth split: if_splits)
  from ctop t have "m \<le> ps ! nat c" by auto
  moreover from mx cn cp have "ps ! nat c \<le> m" by simp
  ultimately have pc: "ps ! nat c = m" by simp
  have scan: "fp_scan xb ?act ?pl m outPort 0 ?s
           = Inr (Some ((?s + int k) mod ?N),
                  xb\<lparr>lastport := (lastport xb)[nat outPort := (?s + int k) mod ?N],
                     lastportPerClass := (lastportPerClass xb)
                       [nat m := ?row[nat outPort := (?s + int k) mod ?N]]\<rparr>)"
    by (rule fp_scan_found [OF wf op len _ mcls]) (use N len k in simp_all)
  have "fp_arbitratePkts xb pktList outPort
               = Inr (Some c,
                      xb\<lparr>lastport := (lastport xb)[nat outPort := c],
                         lastportPerClass := (lastportPerClass xb)
                           [nat m := ?row[nat outPort := c]]\<rparr>,
                      ?pl)"
    unfolding fp_arbitratePkts_def Let_def
    using N mcls op row
    by (simp add: get_priorities_def pr prios m(1) mask scan k(2))
  with cr cp ctop fp pc show ?thesis by auto
qed

lemma fp3_init:
  "FixedPriorityCrossbar_init 0 ''xbar'' 3 1 [0, 2, 2] []
     = Inr (fp3\<lparr>toUp := PortDict Map.empty, toDn := PortDict Map.empty\<rparr>, [])"
  by (simp add: FixedPriorityCrossbar_init_def Crossbar_init_def py_max_def fp3_def numeral_eq_Suc)

lemma fp3_eval:
  "fp_arbitratePkts fp3 pkts3 0
     = Inr (Some 1, fp3\<lparr>lastport := [1], lastportPerClass := [[- 1], [- 1], [1]]\<rparr>,
            [None, Some (pkt ''1''), Some (pkt ''2'')])"
  by (simp add: fp_arbitratePkts_def fp3_def pkts3_def activeports_def upt_rec get_priorities_def
      py_get_def py_set_def py_index_def py_max_def py_mod_def fp_scan.simps truthy_def
      decision_names_def port_name_def)

theorem fp_arbitratePkts_top_class_witness:
  "fp_wf fp3 [0, 2, 2] \<and> length pkts3 = nat (inPorts fp3) \<and> (0::int) \<le> 0 \<and> 0 < outPorts fp3
   \<and> pkts3 ! 0 \<noteq> None
   \<and> fp_arbitratePkts fp3 pkts3 0
         = Inr (Some 1, fp3\<lparr>lastport := [1], lastportPerClass := [[- 1], [- 1], [1]]\<rparr>,
                [None, Some (pkt ''1''), Some (pkt ''2'')])
   \<and> [0, 2, 2 :: int] ! 0 \<le> [0, 2, 2] ! nat 1 \<and> [0, 2, 2 :: int] ! 2 \<le> [0, 2, 2] ! nat 1"
proof -
  have h1: "fp_wf fp3 [0, 2, 2]"
    by (auto simp: fp_wf_def wired_def connected_def fp3_def list_all_iff)
  have h2: "length pkts3 = nat (inPorts fp3)" by (simp add: fp3_def pkts3_def)
  have h3: "(0::int) \<le> 0" by simp
  have h4: "0 < outPorts fp3" by (simp add: fp3_def)
  have h5: "\<exists>i < length pkts3. pkts3 ! i \<noteq> None"
    by (rule exI [of _ 0]) (simp add: pkts3_def)
  from fp_arbitratePkts_top_class [OF h1 h2 h3 h4 h5] obtain c where
    c: "fp_arbitratePkts fp3 pkts3 0
               = Inr (Some c,
                      fp3\<lparr>lastport := (lastport fp3)[nat 0 := c],
                         lastportPerClass := (lastportPerClass fp3)
                           [nat ([0, 2, 2] ! nat c) := (lastportPerClass fp3 ! nat ([0, 2, 2] ! nat c))
                              [nat 0 := c]]\<rparr>,
                      top_class [0, 2, 2] pkts3)"
      "\<forall>j < length pkts3. pkts3 ! j \<noteq> None \<longrightarrow> [0, 2, 2] ! j \<le> [0, 2, 2 :: int] ! nat c"
      "first_present (top_class [0, 2, 2] pkts3) (inPorts fp3)
                  ((lastportPerClass fp3 ! nat ([0, 2, 2] ! nat c) ! nat 0 + 1) mod inPorts fp3) c"
    by blast
  from c(1) have c1: "c = 1" unfolding fp3_eval by simp
  have p0: "pkts3 ! 0 \<noteq> None" and p2: "pkts3 ! 2 \<noteq> None" by (simp_all add: pkts3_def)
  from c(2) c1 p0 have a: "[0, 2, 2 :: int] ! 0 \<le> [0, 2, 2] ! nat 1"
    by (auto simp: pkts3_def)
  from c(2) c1 p2 have b: "[0, 2, 2 :: int] ! 2 \<le> [0, 2, 2] ! nat 1"
    by (auto simp: pkts3_def)
  from h1 h2 h3 h4 p0 fp3_eval a b show ?thesis by blast
qed

text \<open>
  C7. The claim: on every fixed-priority crossbar the chosen input is of the highest
  class present and ties in that class are broken round-robin with the pointer kept
  for that class and output. The constructor accepts any integer priorities and builds
  pointer rows for the classes \<open>0 .. max(priorities)\<close>; \<open>lastportPerClass[maxpriority]\<close>
  with a negative class is Python's index from the end. With priorities \<open>[-1, -1, 0]\<close>
  there is one row, shared by class \<open>-1\<close> and class \<open>0\<close>: inputs 0 and 1 (class \<open>-1\<close>)
  offer a packet, then input 2 (class \<open>0\<close>), then inputs 0 and 1 again, and the grants
  are 0, 2, 0, the grant to input 2 having moved the pointer that class \<open>-1\<close> reads:
  input 1 is passed over. The same offers with priorities \<open>[0, 0, 1]\<close> give 0, 2, 1.
  With priorities \<open>[-2, -1]\<close> there is no row at all and the call raises IndexError.
\<close>

theorem fp_negative_class_shares_pointer:
  "FixedPriorityCrossbar_init 0 ''xbar'' 3 1 [- 1, - 1, 0] [] = Inr (fp_neg, [])
   \<and> fp_calls (connect fp_neg up3 (Component ''dn'')) [pkts3a, pkts3b, pkts3a] 0
       = Inr ([Some 0, Some 2, Some 0],
              \<lparr>inPorts = 3, outPorts = 1, lastport = [0], toUp = up3, toDn = Component ''dn'',
               priorities = Some [- 1, - 1, 0], priorityClasses = Some 1,
               lastportPerClass = [[0]]\<rparr>)
   \<and> FixedPriorityCrossbar_init 0 ''xbar'' 3 1 [0, 0, 1] [] = Inr (fp_pos, [])
   \<and> fp_calls (connect fp_pos up3 (Component ''dn'')) [pkts3a, pkts3b, pkts3a] 0
       = Inr ([Some 0, Some 2, Some 1],
              \<lparr>inPorts = 3, outPorts = 1, lastport = [1], toUp = up3, toDn = Component ''dn'',
               priorities = Some [0, 0, 1], priorityClasses = Some 2,
               lastportPerClass = [[1], [2]]\<rparr>)
   \<and> FixedPriorityCrossbar_init 0 ''xbar'' 2 1 [- 2, - 1] [] = Inr (fp_neg2, [])
   \<and> fp_arbitratePkts (connect fp_neg2 up2 (Component ''dn'')) pkts2 0 = Inl IndexError"
  by (simp add: FixedPriorityCrossbar_init_def Crossbar_init_def connect_def py_max_def
      fp_neg_def fp_pos_def fp_neg2_def up2_def pkts2_def
      up3_def pkts3a_def pkts3b_def fp_arbitratePkts_def activeports_def upt_rec
      get_priorities_def py_get_def py_set_def py_index_def py_mod_def fp_scan.simps
      truthy_def decision_names_def port_name_def numeral_eq_Suc)

subsection \<open>Deferred events\<close>

lemma sbind_simps [simp]:
  "sbind (Raised e s) f = Raised e s" "sbind (Returned r s) f = f r s"
  by (simp_all add: sbind_def)

text \<open>
  C8. \<open>succeed\<close> on an event that is already triggered raises RuntimeError and leaves
  the whole state, so the event's value, success flag and callbacks, as it was. On a
  pending event it returns the event with the value recorded, \<open>_ok\<close> set, the callbacks
  kept, and one entry for the event appended to the schedule at \<open>now + delay\<close>; a second
  \<open>succeed\<close> then raises. When nothing else is scheduled, the next step of the
  environment sets the clock to \<open>now + delay\<close> and runs the event's callbacks in order.
\<close>

theorem succeed_exactly_once:
  "(triggered s e \<longrightarrow> succeed e v d s = Raised RuntimeError s)
   \<and> (\<not> triggered s e \<longrightarrow>
        (\<exists>s'. succeed e v d s = Returned e s'
           \<and> ev_value (events s' e) = Some v \<and> ev_ok (events s' e) = Some True
           \<and> ev_callbacks (events s' e) = ev_callbacks (events s e)
           \<and> env_now s' = env_now s
           \<and> env_queue s' = env_queue s @ [(env_now s + d, NORMAL, env_eid s, e)]
           \<and> succeed e v2 d2 s' = Raised RuntimeError s'
           \<and> (env_queue s = [] \<and> ev_callbacks (events s e) = Some cbs \<longrightarrow>
                step run s'
                  = sbind (run_callbacks run cbs e
                             (s'\<lparr>env_now := env_now s + d, env_queue := [],
                                 events := (events s')(e := (events s' e)\<lparr>ev_callbacks := None\<rparr>)\<rparr>))
                      (\<lambda>u s2. if ev_ok (events s2 e) = Some True then Returned () s2
                               else Raised RuntimeError s2))))"
  by (auto simp: triggered_def succeed_def schedule_def step_def)

theorem succeed_exactly_once_witness:
  "\<not> triggered env1 0
   \<and> succeed 0 (PyInt 7) 3 env1 = Returned 0 env1'
   \<and> triggered env1' 0
   \<and> succeed 0 PyNone 0 env1' = Raised RuntimeError env1'"
proof -
  have p: "\<not> triggered env1 0" by (simp add: triggered_def env1_def blank_event_def)
  have e: "succeed 0 (PyInt 7) 3 env1 = Returned 0 env1'"
    by (simp add: succeed_def schedule_def env1_def env1'_def blank_event_def)
  from succeed_exactly_once [of env1 0 "PyInt 7" 3 PyNone 0] p
  obtain s' where s': "succeed 0 (PyInt 7) 3 env1 = Returned 0 s'"
    "succeed 0 PyNone 0 s' = Raised RuntimeError s'" "ev_value (events s' 0) = Some (PyInt 7)"
    by blast
  from s'(1) e have "s' = env1'" by simp
  with s' p e show ?thesis by (simp add: triggered_def)
qed

subsection \<open>Credit buffer\<close>

text \<open>
  C4. The claim: a peek with threshold \<open>t\<close> succeeds exactly when the token count is at
  least \<open>t\<close>. \<open>_do_peek\<close> tests \<open>len(self.items) > event.item\<close>: when the count equals
  the threshold the request is left pending and the state is unchanged.
\<close>

theorem cb_do_peek_at_threshold:
  "ev_item (events s e) = PyInt (int (length (cb_items s))) \<Longrightarrow> cb_do_peek e s = Returned False s"
  by (simp add: cb_do_peek_def)

theorem cb_do_peek_at_threshold_witness:
  "ev_item (events cb1 0) = PyInt (int (length (cb_items cb1))) \<and> \<not> triggered cb1 0
   \<and> cb_do_peek 0 cb1 = Returned False cb1"
  using cb_do_peek_at_threshold [of cb1 0] by (simp add: cb1_def blank_event_def triggered_def)

subsection \<open>Buffer occupancy\<close>

lemma do_put_full:
  "int (length (items s)) = capacity s \<Longrightarrow> do_put e s = Returned False s"
  by (simp add: do_put_def do_put_body_def)

lemma do_get_empty: "items s = [] \<Longrightarrow> do_get e s = Returned False s"
  by (simp add: do_get_def do_get_body_def)

lemma overflow_run_eval:
  "(case overflow_run of
      Returned u s \<Rightarrow> length (items s) = 2 \<and> capacity s = 1 \<and> env_now s = 3
    | Raised e s \<Rightarrow> False)"
  by code_simp

text \<open>
  C9. The claim: the number of occupied slots of a buffer never exceeds its capacity.
  \<open>_do_put\<close> tests \<open>len(self.items) < self._capacity\<close> when it accepts a request, but
  with a pre-put delay the item is appended later by the callback \<open>_insert_packet\<close>,
  which does not test it again: a second request accepted in between makes the buffer
  hold two items with capacity 1. (\<open>_do_put\<close> itself changes nothing when the buffer is
  full, and \<open>_do_get\<close> nothing when it is empty: \<open>do_put_full\<close>, \<open>do_get_empty\<close>.)
\<close>

theorem buffer_overflow_delayed_put:
  "\<exists>s. overflow_run = Returned () s \<and> length (items s) = 2 \<and> capacity s = 1 \<and> env_now s = 3"
proof (cases overflow_run)
  case (Raised e s)
  from overflow_run_eval show ?thesis unfolding Raised by simp
next
  case (Returned u s)
  from overflow_run_eval show ?thesis unfolding Returned by simp
qed

subsection \<open>Trigger routines: hooks, footprints and closed forms\<close>

declare trigger_peek_loop.simps [simp del] trigger_get_loop.simps [simp del]
  trigger_put_loop.simps [simp del] cb_trigger_peek_loop.simps [simp del]
  pl_trigger_put_loop.simps [simp del]

lemma list_pop_0 [simp]: "list_pop q 0 = tl q"
  by (simp add: list_pop_def drop_Suc)

lemma sbind_Returned_iff:
  "sbind m f = Returned r s' \<longleftrightarrow> (\<exists>x s1. m = Returned x s1 \<and> f x s1 = Returned r s')"
  by (cases m) simp_all

lemma sbind_Raised_iff:
  "sbind m f = Raised e s' \<longleftrightarrow> m = Raised e s' \<or> (\<exists>x s1. m = Returned x s1 \<and> f x s1 = Raised e s')"
  by (cases m) auto

lemma lift_Returned_iff: "lift r s = Returned v s' \<longleftrightarrow> r = Inr v \<and> s' = s"
  by (cases r) (auto simp: lift_def)

lemma lift_Raised_iff: "lift r s = Raised e s' \<longleftrightarrow> r = Inl e \<and> s' = s"
  by (cases r) (auto simp: lift_def)

text \<open>What the primitive operations on events change.\<close>

lemma succeed_Returned:
  "succeed e v d s = Returned r s' \<longleftrightarrow>
     ev_value (events s e) = None \<and> r = e
     \<and> s' = s\<lparr>events := (events s)(e := (events s e)\<lparr>ev_ok := Some True, ev_value := Some v\<rparr>),
              env_queue := env_queue s @ [(env_now s + d, NORMAL, env_eid s, e)],
              env_eid := Suc (env_eid s)\<rparr>"
  by (auto simp: succeed_def schedule_def)

lemma succeed_Raised:
  "succeed e v d s = Raised err s' \<longleftrightarrow> ev_value (events s e) \<noteq> None \<and> err = RuntimeError \<and> s' = s"
  by (auto simp: succeed_def)

lemma add_callbacks_Returned:
  "add_callbacks e cbs s = Returned u s' \<longleftrightarrow>
     (\<exists>cs. ev_callbacks (events s e) = Some cs
        \<and> s' = s\<lparr>events := (events s)(e := (events s e)\<lparr>ev_callbacks := Some (cs @ cbs)\<rparr>)\<rparr>)"
  by (auto simp: add_callbacks_def split: option.splits)

lemma add_callbacks_Raised:
  "add_callbacks e cbs s = Raised err s' \<longleftrightarrow>
     ev_callbacks (events s e) = None \<and> err = TypeError \<and> s' = s"
  by (auto simp: add_callbacks_def split: option.splits)

subsection \<open>Buffer: the peek queue\<close>

lemma do_peek_effect:
  assumes "do_peek e s = Returned p s'"
  shows "p = False" "put_queue s' = put_queue s" "get_queue s' = get_queue s"
    "peek_queue s' = peek_queue s" "nrefs s' = nrefs s" "items s' = items s"
    "\<forall>x. x \<noteq> e \<longrightarrow> events s' x = events s x" "s' = s \<or> triggered s' e"
  using assms
  by (auto simp: do_peek_def sbind_Returned_iff succeed_Returned triggered_def split: if_splits)

lemma do_peek_Raised:
  "do_peek e s = Raised err s' \<Longrightarrow> err = RuntimeError \<and> triggered s e \<and> s' = s"
  by (auto simp: do_peek_def sbind_Raised_iff succeed_Raised triggered_def split: if_splits)

lemma trigger_peek_unfold:
  "trigger_peek s =
     (case peek_queue s of
        [] \<Rightarrow> Returned [] s
      | e # es \<Rightarrow>
          (case do_peek e s of
             Raised err s1 \<Rightarrow> Raised err s1
           | Returned proceed s1 \<Rightarrow>
               if \<not> triggered s1 e then Returned [e] s1
               else Returned [e] (s1\<lparr>peek_queue := es\<rparr>)))"
proof (cases "peek_queue s")
  case Nil
  then show ?thesis by (simp add: trigger_peek_def trigger_peek_loop.simps)
next
  case (Cons e es)
  show ?thesis
  proof (cases "do_peek e s")
    case (Raised err s1)
    with Cons show ?thesis by (simp add: trigger_peek_def trigger_peek_loop.simps)
  next
    case (Returned p s1)
    from do_peek_effect [OF Returned] Cons Returned show ?thesis
      by (simp add: trigger_peek_def trigger_peek_loop.simps)
  qed
qed

subsection \<open>Footprints\<close>

lemma touches_refl [simp]: "touches E s s"
  unfolding touches_def
  by (auto intro!: exI [of _ 0])

lemma touches_mono: "touches E s s' \<Longrightarrow> E \<subseteq> E' \<Longrightarrow> touches E' s s'"
  unfolding touches_def by blast

lemma set_take_drop_add:
  "set (take k q) \<union> set (take k' (drop k q)) = set (take (k + k') q)"
proof -
  have "take (k + k') q = take k q @ take k' (drop k q)" by (simp add: take_add)
  then show ?thesis by simp
qed

lemma touches_trans:
  assumes "touches E s s1" "touches E s1 s2"
  shows "touches E s s2"
proof -
  from assms(1) obtain kp kg kk where a:
    "nrefs s \<le> nrefs s1" "\<forall>x. triggered s x \<longrightarrow> triggered s1 x"
    "put_queue s1 = drop kp (put_queue s)" "get_queue s1 = drop kg (get_queue s)"
    "peek_queue s1 = drop kk (peek_queue s)"
    "\<forall>x \<in> set (take kp (put_queue s)) \<union> set (take kg (get_queue s))
            \<union> set (take kk (peek_queue s)). triggered s1 x"
    "\<forall>x. x < nrefs s \<and> events s1 x \<noteq> events s x \<longrightarrow>
        x \<in> E \<or> x \<in> set (take kp (put_queue s)) \<union> set (take kg (get_queue s))
                     \<union> set (take kk (peek_queue s))"
    unfolding touches_def by blast
  from assms(2) obtain jp jg jk where b:
    "nrefs s1 \<le> nrefs s2" "\<forall>x. triggered s1 x \<longrightarrow> triggered s2 x"
    "put_queue s2 = drop jp (put_queue s1)" "get_queue s2 = drop jg (get_queue s1)"
    "peek_queue s2 = drop jk (peek_queue s1)"
    "\<forall>x \<in> set (take jp (put_queue s1)) \<union> set (take jg (get_queue s1))
            \<union> set (take jk (peek_queue s1)). triggered s2 x"
    "\<forall>x. x < nrefs s1 \<and> events s2 x \<noteq> events s1 x \<longrightarrow>
        x \<in> E \<or> x \<in> set (take jp (put_queue s1)) \<union> set (take jg (get_queue s1))
                     \<union> set (take jk (peek_queue s1))"
    unfolding touches_def by blast
  let ?P = "set (take (kp + jp) (put_queue s)) \<union> set (take (kg + jg) (get_queue s))
              \<union> set (take (kk + jk) (peek_queue s))"
  have P: "?P = (set (take kp (put_queue s)) \<union> set (take kg (get_queue s))
                   \<union> set (take kk (peek_queue s)))
               \<union> (set (take jp (put_queue s1)) \<union> set (take jg (get_queue s1))
                   \<union> set (take jk (peek_queue s1)))"
    unfolding a(3,4,5) set_take_drop_add [symmetric] by blast
  have 1: "nrefs s \<le> nrefs s2" using a(1) b(1) by simp
  have 2: "\<forall>x. triggered s x \<longrightarrow> triggered s2 x" using a(2) b(2) by blast
  have 3: "put_queue s2 = drop (kp + jp) (put_queue s)"
    "get_queue s2 = drop (kg + jg) (get_queue s)"
    "peek_queue s2 = drop (kk + jk) (peek_queue s)"
    using a(3,4,5) b(3,4,5) by (simp_all add: add.commute)
  have 4: "\<forall>x \<in> ?P. triggered s2 x" unfolding P using a(6) b(2,6) by blast
  have 5: "\<forall>x. x < nrefs s \<and> events s2 x \<noteq> events s x \<longrightarrow> x \<in> E \<or> x \<in> ?P"
  proof (intro allI impI)
    fix x assume x: "x < nrefs s \<and> events s2 x \<noteq> events s x"
    then have "events s1 x \<noteq> events s x \<or> events s2 x \<noteq> events s1 x" by auto
    moreover have "x < nrefs s1" using x a(1) by simp
    ultimately show "x \<in> E \<or> x \<in> ?P" unfolding P using a(7) b(7) x by blast
  qed
  show ?thesis unfolding touches_def using 1 2 3 4 5 by blast
qed

lemma touches_sbind:
  assumes "sbind m f = Returned r s'"
    and "\<And>x s1. m = Returned x s1 \<Longrightarrow> touches E s s1"
    and "\<And>x s1. m = Returned x s1 \<Longrightarrow> f x s1 = Returned r s' \<Longrightarrow> touches E s1 s'"
  shows "touches E s s'"
proof -
  from assms(1) obtain x s1 where "m = Returned x s1" "f x s1 = Returned r s'"
    by (auto simp: sbind_Returned_iff)
  with assms(2,3) show ?thesis by (blast intro: touches_trans)
qed

text \<open>A state that differs only in the events of \<open>E\<close> and in fields that hold no request.\<close>

lemma touches_same_queues:
  assumes "put_queue s' = put_queue s" "get_queue s' = get_queue s" "peek_queue s' = peek_queue s"
    "nrefs s \<le> nrefs s'" "\<forall>x. triggered s x \<longrightarrow> triggered s' x"
    "\<forall>x. x < nrefs s \<and> x \<notin> E \<longrightarrow> events s' x = events s x"
  shows "touches E s s'"
  unfolding touches_def using assms
  by (auto intro!: exI [of _ 0])

lemma touches_succeed:
  "succeed e v d s = Returned r s' \<Longrightarrow> e \<in> E \<Longrightarrow> touches E s s'"
  by (rule touches_same_queues) (auto simp: succeed_Returned triggered_def)

lemma touches_add_callbacks:
  "add_callbacks e cbs s = Returned r s' \<Longrightarrow> e \<in> E \<Longrightarrow> touches E s s'"
  by (rule touches_same_queues) (auto simp: add_callbacks_Returned triggered_def)

lemma touches_lift: "lift r s = Returned v s' \<Longrightarrow> touches E s s'"
  by (simp add: lift_Returned_iff)

lemma touches_remove_packet: "remove_packet e s = Returned r s' \<Longrightarrow> touches E s s'"
  by (rule touches_same_queues)
     (auto simp: remove_packet_def sbind_Returned_iff lift_Returned_iff triggered_def
           split: list.splits)

lemma touches_insert_packet: "insert_packet e s = Returned r s' \<Longrightarrow> touches E s s'"
  by (rule touches_same_queues)
     (auto simp: insert_packet_def Let_def sbind_Returned_iff lift_Returned_iff triggered_def)

lemma touches_updateGetDebt: "updateGetDebt item s = Returned r s' \<Longrightarrow> touches E s s'"
  by (rule touches_same_queues)
     (auto simp: updateGetDebt_def sbind_Returned_iff lift_Returned_iff triggered_def
           split: prod.splits)

lemma touches_updatePutDebt: "updatePutDebt item s = Returned r s' \<Longrightarrow> touches E s s'"
  by (rule touches_same_queues)
     (auto simp: updatePutDebt_def sbind_Returned_iff lift_Returned_iff triggered_def
           split: prod.splits)

lemma drop_eq_self: "drop k q = q \<Longrightarrow> q \<noteq> [] \<Longrightarrow> k = 0"
proof (rule ccontr)
  assume a: "drop k q = q" "q \<noteq> []" "k \<noteq> 0"
  have "length (drop k q) = length q - k" by simp
  moreover have "0 < length q" using a(2) by simp
  ultimately have "length (drop k q) < length q" using a(3) by linarith
  with a(1) show False by simp
qed

lemma touches_pop_peek:
  assumes t: "touches {e} s s1" and q: "peek_queue s = e # es" "peek_queue s1 = peek_queue s"
    and tr: "triggered s1 e"
  shows "touches {} s (s1\<lparr>peek_queue := es\<rparr>)"
proof -
  from t obtain kp kg kk where a:
    "nrefs s \<le> nrefs s1" "\<forall>x. triggered s x \<longrightarrow> triggered s1 x"
    "put_queue s1 = drop kp (put_queue s)" "get_queue s1 = drop kg (get_queue s)"
    "peek_queue s1 = drop kk (peek_queue s)"
    "\<forall>x \<in> set (take kp (put_queue s)) \<union> set (take kg (get_queue s))
            \<union> set (take kk (peek_queue s)). triggered s1 x"
    "\<forall>x. x < nrefs s \<and> events s1 x \<noteq> events s x \<longrightarrow>
        x \<in> {e} \<or> x \<in> set (take kp (put_queue s)) \<union> set (take kg (get_queue s))
                     \<union> set (take kk (peek_queue s))"
    unfolding touches_def by blast
  from a(5) q have kk: "kk = 0" using drop_eq_self [of kk "peek_queue s"] by simp
  show ?thesis
    unfolding touches_def
    apply (intro conjI)
      apply (simp add: a(1))
     apply (simp add: triggered_def) using a(2) apply (simp add: triggered_def)
    apply (rule exI [of _ kp], rule exI [of _ kg], rule exI [of _ 1])
    using a q tr kk apply (auto simp: triggered_def)
    done
qed

lemma touches_pop_get:
  assumes t: "touches {e} s s1" and q: "get_queue s = e # es" "get_queue s1 = get_queue s"
    and tr: "triggered s1 e"
  shows "touches {} s (s1\<lparr>get_queue := es\<rparr>)"
proof -
  from t obtain kp kg kk where a:
    "nrefs s \<le> nrefs s1" "\<forall>x. triggered s x \<longrightarrow> triggered s1 x"
    "put_queue s1 = drop kp (put_queue s)" "get_queue s1 = drop kg (get_queue s)"
    "peek_queue s1 = drop kk (peek_queue s)"
    "\<forall>x \<in> set (take kp (put_queue s)) \<union> set (take kg (get_queue s))
            \<union> set (take kk (peek_queue s)). triggered s1 x"
    "\<forall>x. x < nrefs s \<and> events s1 x \<noteq> events s x \<longrightarrow>
        x \<in> {e} \<or> x \<in> set (take kp (put_queue s)) \<union> set (take kg (get_queue s))
                     \<union> set (take kk (peek_queue s))"
    unfolding touches_def by blast
  from a(4) q have kg: "kg = 0" using drop_eq_self [of kg "get_queue s"] by simp
  show ?thesis
    unfolding touches_def
    apply (intro conjI)
      apply (simp add: a(1))
     apply (simp add: triggered_def) using a(2) apply (simp add: triggered_def)
    apply (rule exI [of _ kp], rule exI [of _ 1], rule exI [of _ kk])
    using a q tr kg apply (auto simp: triggered_def)
    done
qed

lemma touches_pop_put:
  assumes t: "touches {e} s s1" and q: "put_queue s = e # es" "put_queue s1 = put_queue s"
    and tr: "triggered s1 e"
  shows "touches {} s (s1\<lparr>put_queue := es\<rparr>)"
proof -
  from t obtain kp kg kk where a:
    "nrefs s \<le> nrefs s1" "\<forall>x. triggered s x \<longrightarrow> triggered s1 x"
    "put_queue s1 = drop kp (put_queue s)" "get_queue s1 = drop kg (get_queue s)"
    "peek_queue s1 = drop kk (peek_queue s)"
    "\<forall>x \<in> set (take kp (put_queue s)) \<union> set (take kg (get_queue s))
            \<union> set (take kk (peek_queue s)). triggered s1 x"
    "\<forall>x. x < nrefs s \<and> events s1 x \<noteq> events s x \<longrightarrow>
        x \<in> {e} \<or> x \<in> set (take kp (put_queue s)) \<union> set (take kg (get_queue s))
                     \<union> set (take kk (peek_queue s))"
    unfolding touches_def by blast
  from a(3) q have kp: "kp = 0" using drop_eq_self [of kp "put_queue s"] by simp
  show ?thesis
    unfolding touches_def
    apply (intro conjI)
      apply (simp add: a(1))
     apply (simp add: triggered_def) using a(2) apply (simp add: triggered_def)
    apply (rule exI [of _ 1], rule exI [of _ kg], rule exI [of _ kk])
    using a q tr kp apply (auto simp: triggered_def)
    done
qed

subsection \<open>Buffer: the peek queue\<close>

lemma do_peek_touches: "do_peek e s = Returned p s' \<Longrightarrow> touches {e} s s'"
  by (rule touches_same_queues)
     (auto simp: do_peek_def sbind_Returned_iff succeed_Returned triggered_def split: if_splits)

lemma trigger_peek_touches:
  assumes "trigger_peek s = Returned c s'"
  shows "touches {} s s'"
proof (cases "peek_queue s")
  case Nil
  with assms show ?thesis by (simp add: trigger_peek_unfold)
next
  case (Cons e es)
  with assms obtain p s1 where h: "do_peek e s = Returned p s1"
    and r: "s' = (if \<not> triggered s1 e then s1 else s1\<lparr>peek_queue := es\<rparr>)"
    by (auto simp: trigger_peek_unfold split: outcome.splits if_splits)
  note eff = do_peek_effect [OF h]
  show ?thesis
  proof (cases "triggered s1 e")
    case False
    with eff(8) r show ?thesis by auto
  next
    case True
    with r touches_pop_peek [OF do_peek_touches [OF h] Cons eff(4) True]
    show ?thesis by simp
  qed
qed


lemma trigger_peek_kept:
  assumes "trigger_peek s = Returned c s'"
  shows "peek_queue s' = (if peek_queue s \<noteq> [] \<and> triggered s' (hd (peek_queue s))
                          then tl (peek_queue s) else peek_queue s)"
    and "put_queue s' = put_queue s" and "get_queue s' = get_queue s"
proof -
  show "peek_queue s' = (if peek_queue s \<noteq> [] \<and> triggered s' (hd (peek_queue s))
                          then tl (peek_queue s) else peek_queue s)"
  proof (cases "peek_queue s")
    case Nil
    with assms show ?thesis by (simp add: trigger_peek_unfold)
  next
    case (Cons e es)
    with assms obtain p s1 where h: "do_peek e s = Returned p s1"
      and r: "s' = (if \<not> triggered s1 e then s1 else s1\<lparr>peek_queue := es\<rparr>)"
      by (auto simp: trigger_peek_unfold split: outcome.splits if_splits)
    from do_peek_effect(4) [OF h] r Cons show ?thesis by (auto simp: triggered_def)
  qed
  show "put_queue s' = put_queue s" "get_queue s' = get_queue s"
    using assms
    by (auto simp: trigger_peek_unfold do_peek_effect split: list.splits outcome.splits if_splits)
qed

subsection \<open>Buffer: the get queue\<close>

lemma do_get_body_touches: "do_get_body e s = Returned u s' \<Longrightarrow> touches {e} s s'"
  unfolding do_get_body_def Let_def
  by (auto split: if_splits elim!: touches_sbind
           intro: touches_succeed touches_add_callbacks touches_remove_packet
                  touches_updateGetDebt)

lemma do_get_touches: "do_get e s = Returned p s' \<Longrightarrow> touches {e} s s'"
  by (auto simp: do_get_def sbind_Returned_iff dest: do_get_body_touches)

lemma remove_packet_Returned:
  "remove_packet e s = Returned u s' \<longleftrightarrow>
     (\<exists>x xs v. items s = x # xs \<and> addPostGetDelay x (s\<lparr>items := xs\<rparr>) = Inr v
        \<and> s' = s\<lparr>items := xs\<rparr>)"
  by (cases "items s") (auto simp: remove_packet_def sbind_Returned_iff lift_Returned_iff)

lemma insert_packet_Returned:
  "insert_packet e s = Returned u s' \<longleftrightarrow>
     (\<exists>v. addPostPutDelay (ev_item (events s e)) (s\<lparr>items := items s @ [ev_item (events s e)]\<rparr>)
            = Inr v
        \<and> s' = s\<lparr>items := items s @ [ev_item (events s e)]\<rparr>)"
  by (auto simp: insert_packet_def Let_def sbind_Returned_iff lift_Returned_iff)

lemma updateGetDebt_Returned:
  "updateGetDebt item s = Returned u s' \<longleftrightarrow>
     (\<exists>t d. getTicks item (getBytesPerCycle s) = Inr (t, d)
        \<and> s' = s\<lparr>getDebt := (getDebt s + d) - (getDebt s + d)\<rparr>)"
  by (auto simp: updateGetDebt_def sbind_Returned_iff lift_Returned_iff)

lemma updatePutDebt_Returned:
  "updatePutDebt item s = Returned u s' \<longleftrightarrow>
     (\<exists>t d. getTicks item (putBytesPerCycle s) = Inr (t, d)
        \<and> s' = s\<lparr>putDebt := (putDebt s + d) - (putDebt s + d)\<rparr>)"
  by (auto simp: updatePutDebt_def sbind_Returned_iff lift_Returned_iff)

lemma do_get_same_queues:
  "do_get e s = Returned p s' \<Longrightarrow>
   put_queue s' = put_queue s \<and> get_queue s' = get_queue s \<and> peek_queue s' = peek_queue s"
  by (auto simp: do_get_def do_get_body_def Let_def sbind_Returned_iff
        succeed_Returned add_callbacks_Returned remove_packet_Returned updateGetDebt_Returned
        split: if_splits)

lemma do_get_stays_or_fires:
  "do_get e s = Returned p s' \<Longrightarrow> \<not> p \<and> (s' = s \<or> triggered s' e)"
  by (auto simp: do_get_def do_get_body_def Let_def sbind_Returned_iff succeed_Returned
        updateGetDebt_Returned triggered_def split: if_splits)

lemma trigger_get_unfold:
  "trigger_get s =
     (case get_queue s of
        [] \<Rightarrow> Returned [] s
      | e # es \<Rightarrow>
          (case do_get e s of
             Raised err s1 \<Rightarrow> Raised err s1
           | Returned proceed s1 \<Rightarrow>
               if \<not> triggered s1 e then Returned [e] s1
               else Returned [e] (s1\<lparr>get_queue := es\<rparr>)))"
proof (cases "get_queue s")
  case Nil
  then show ?thesis by (simp add: trigger_get_def trigger_get_loop.simps)
next
  case (Cons e es)
  show ?thesis
  proof (cases "do_get e s")
    case (Raised err s1)
    with Cons show ?thesis by (simp add: trigger_get_def trigger_get_loop.simps)
  next
    case (Returned p s1)
    from do_get_same_queues [OF Returned] do_get_stays_or_fires [OF Returned] Cons Returned
    show ?thesis
      by (simp add: trigger_get_def trigger_get_loop.simps)
  qed
qed

lemma trigger_get_touches:
  assumes "trigger_get s = Returned c s'"
  shows "touches {} s s'"
proof (cases "get_queue s")
  case Nil
  with assms show ?thesis by (simp add: trigger_get_unfold)
next
  case (Cons e es)
  with assms obtain p s1 where h: "do_get e s = Returned p s1"
    and r: "s' = (if \<not> triggered s1 e then s1 else s1\<lparr>get_queue := es\<rparr>)"
    by (auto simp: trigger_get_unfold split: outcome.splits if_splits)
  show ?thesis
  proof (cases "triggered s1 e")
    case False
    with do_get_stays_or_fires [OF h] r show ?thesis by auto
  next
    case True
    from do_get_same_queues [OF h] have "get_queue s1 = get_queue s"
      by simp
    with r True touches_pop_get [OF do_get_touches [OF h] Cons _ True]
    show ?thesis by simp
  qed
qed


lemma trigger_get_kept:
  assumes "trigger_get s = Returned c s'"
  shows "get_queue s' = (if get_queue s \<noteq> [] \<and> triggered s' (hd (get_queue s))
                          then tl (get_queue s) else get_queue s)
         \<and> put_queue s' = put_queue s \<and> peek_queue s' = peek_queue s"
proof (cases "get_queue s")
  case Nil
  with assms show ?thesis by (simp add: trigger_get_unfold)
next
  case (Cons e es)
  with assms obtain p s1 where h: "do_get e s = Returned p s1"
    and r: "s' = (if \<not> triggered s1 e then s1 else s1\<lparr>get_queue := es\<rparr>)"
    by (auto simp: trigger_get_unfold split: outcome.splits if_splits)
  from do_get_same_queues [OF h] r Cons show ?thesis
    by (auto simp: triggered_def)
qed

lemma trigger_peek_kept':
  "trigger_peek s = Returned c s' \<Longrightarrow>
   peek_queue s' = (if peek_queue s \<noteq> [] \<and> triggered s' (hd (peek_queue s))
                          then tl (peek_queue s) else peek_queue s)
         \<and> put_queue s' = put_queue s \<and> get_queue s' = get_queue s"
  using trigger_peek_kept by blast

subsection \<open>Buffer: the put queue\<close>

lemma sbindE:
  assumes "sbind m f = Returned r s'"
  obtains x s1 where "m = Returned x s1" "f x s1 = Returned r s'"
  using assms by (auto simp: sbind_Returned_iff)

text \<open>The two ways in which \<open>_do_put\<close> accepts a request, step by step.\<close>

lemma do_put_cases:
  assumes "do_put e s = Returned p s'"
  obtains (full) "\<not> p" "\<not> int (length (items s)) < capacity s" "s' = s"
  | (delayed) s1 s3 s4 s2 s6 post where "\<not> p" "int (length (items s)) < capacity s"
      "add_callbacks e [Cb_updateTotalWrBits] s = Returned () s1"
      "add_callbacks (nrefs s1) [Cb_insert_packet, Cb_trigger_get, Cb_trigger_peek]
         (snd (new_event (ev_item (events s e)) s1)) = Returned () s3"
      "succeed (nrefs s1) PyNone (addPrePutDelay (ev_item (events s e)) s) s3
         = Returned (nrefs s1) s4"
      "succeed e PyNone post s4 = Returned e s2"
      "updatePutDebt (ev_item (events s e)) (s2\<lparr>lastActivity := env_now s2 + post\<rparr>)
         = Returned () s6"
      "s' = (if firstActivity s6 = None then s6\<lparr>firstActivity := Some (env_now s6)\<rparr> else s6)"
  | (direct) s1 s3 s4 s5 c1 c2 s2 s6 post where "\<not> p" "int (length (items s)) < capacity s"
      "add_callbacks e [Cb_updateTotalWrBits] s = Returned () s1"
      "succeed e PyNone post s1 = Returned e s3"
      "insert_packet e s3 = Returned () s4"
      "trigger_get s4 = Returned c1 s5"
      "trigger_peek s5 = Returned c2 s2"
      "updatePutDebt (ev_item (events s e)) (s2\<lparr>lastActivity := env_now s2 + post\<rparr>)
         = Returned () s6"
      "s' = (if firstActivity s6 = None then s6\<lparr>firstActivity := Some (env_now s6)\<rparr> else s6)"
proof -
  from assms have np: "\<not> p" and B: "do_put_body e s = Returned () s'"
    by (auto simp: do_put_def sbind_Returned_iff)
  show thesis
  proof (cases "int (length (items s)) < capacity s")
    case False
    with B have "s' = s" by (simp add: do_put_body_def)
    with np False show thesis by (rule full)
  next
    case True
    let ?item = "ev_item (events s e)"
    let ?pre = "addPrePutDelay ?item s"
    from B True obtain post s0 where
      l: "lift (addPostPutDelay ?item s) s = Returned post s0"
      and C: "sbind (add_callbacks e [Cb_updateTotalWrBits] s0) (\<lambda>_ s.
            sbind (if ?pre \<noteq> 0 then
                     (case new_event ?item s of (ev, s) \<Rightarrow>
                        sbind (add_callbacks ev [Cb_insert_packet, Cb_trigger_get, Cb_trigger_peek] s)
                          (\<lambda>_ s. sbind (succeed ev PyNone ?pre s)
                          (\<lambda>_ s. sbind (succeed e PyNone post s) (\<lambda>_ s. Returned () s))))
                   else
                     sbind (succeed e PyNone post s)
                       (\<lambda>_ s. sbind (insert_packet e s)
                       (\<lambda>_ s. sbind (trigger_get s)
                       (\<lambda>_ s. sbind (trigger_peek s) (\<lambda>_ s. Returned () s))))) (\<lambda>_ s.
            sbind (updatePutDebt ?item (s\<lparr>lastActivity := env_now s + post\<rparr>)) (\<lambda>_ s.
            Returned () (if firstActivity s = None then s\<lparr>firstActivity := Some (env_now s)\<rparr>
                         else s)))) = Returned () s'"
      unfolding do_put_body_def Let_def by (simp only: if_True) (erule sbindE)
    from l have s0: "s0 = s" by (simp add: lift_Returned_iff)
    from C obtain u1 s1 where
      a: "add_callbacks e [Cb_updateTotalWrBits] s0 = Returned u1 s1"
      and D: "sbind (if ?pre \<noteq> 0 then
                     (case new_event ?item s1 of (ev, s) \<Rightarrow>
                        sbind (add_callbacks ev [Cb_insert_packet, Cb_trigger_get, Cb_trigger_peek] s)
                          (\<lambda>_ s. sbind (succeed ev PyNone ?pre s)
                          (\<lambda>_ s. sbind (succeed e PyNone post s) (\<lambda>_ s. Returned () s))))
                   else
                     sbind (succeed e PyNone post s1)
                       (\<lambda>_ s. sbind (insert_packet e s)
                       (\<lambda>_ s. sbind (trigger_get s)
                       (\<lambda>_ s. sbind (trigger_peek s) (\<lambda>_ s. Returned () s))))) (\<lambda>_ s.
            sbind (updatePutDebt ?item (s\<lparr>lastActivity := env_now s + post\<rparr>)) (\<lambda>_ s.
            Returned () (if firstActivity s = None then s\<lparr>firstActivity := Some (env_now s)\<rparr>
                         else s))) = Returned () s'"
      by (erule sbindE)
    from D obtain u2 s2 where
      M: "(if ?pre \<noteq> 0 then
                     (case new_event ?item s1 of (ev, s) \<Rightarrow>
                        sbind (add_callbacks ev [Cb_insert_packet, Cb_trigger_get, Cb_trigger_peek] s)
                          (\<lambda>_ s. sbind (succeed ev PyNone ?pre s)
                          (\<lambda>_ s. sbind (succeed e PyNone post s) (\<lambda>_ s. Returned () s))))
                   else
                     sbind (succeed e PyNone post s1)
                       (\<lambda>_ s. sbind (insert_packet e s)
                       (\<lambda>_ s. sbind (trigger_get s)
                       (\<lambda>_ s. sbind (trigger_peek s) (\<lambda>_ s. Returned () s))))) = Returned u2 s2"
      and F: "sbind (updatePutDebt ?item (s2\<lparr>lastActivity := env_now s2 + post\<rparr>)) (\<lambda>_ s.
            Returned () (if firstActivity s = None then s\<lparr>firstActivity := Some (env_now s)\<rparr>
                         else s)) = Returned () s'"
      by (erule sbindE)
    from F obtain u3 s6 where
      g: "updatePutDebt ?item (s2\<lparr>lastActivity := env_now s2 + post\<rparr>) = Returned u3 s6"
      and h: "s' = (if firstActivity s6 = None then s6\<lparr>firstActivity := Some (env_now s6)\<rparr>
                    else s6)"
      by (auto simp: sbind_Returned_iff)
    show thesis
    proof (cases "?pre \<noteq> 0")
      case True
      with M have M': "sbind (add_callbacks (nrefs s1)
                               [Cb_insert_packet, Cb_trigger_get, Cb_trigger_peek]
                               (snd (new_event ?item s1)))
                          (\<lambda>_ s. sbind (succeed (nrefs s1) PyNone ?pre s)
                          (\<lambda>_ s. sbind (succeed e PyNone post s) (\<lambda>_ s. Returned () s)))
                    = Returned u2 s2"
        by (simp add: new_event_def)
      from M' obtain v1 s3 where
        b: "add_callbacks (nrefs s1) [Cb_insert_packet, Cb_trigger_get, Cb_trigger_peek]
              (snd (new_event ?item s1)) = Returned v1 s3"
        and M2: "sbind (succeed (nrefs s1) PyNone ?pre s3)
                   (\<lambda>_ s. sbind (succeed e PyNone post s) (\<lambda>_ s. Returned () s)) = Returned u2 s2"
        by (erule sbindE)
      from M2 obtain v2 s4 where
        c: "succeed (nrefs s1) PyNone ?pre s3 = Returned v2 s4"
        and M3: "sbind (succeed e PyNone post s4) (\<lambda>_ s. Returned () s) = Returned u2 s2"
        by (erule sbindE)
      from M3 have d: "succeed e PyNone post s4 = Returned e s2"
        by (auto simp: sbind_Returned_iff succeed_Returned)
      from c have c': "succeed (nrefs s1) PyNone ?pre s3 = Returned (nrefs s1) s4"
        by (auto simp: succeed_Returned)
      show thesis
        using np \<open>int (length (items s)) < capacity s\<close> a b c' d g h s0
        by (intro delayed [of s1 s3 s4 post s2 s6]) simp_all
    next
      case False
      with M have M': "sbind (succeed e PyNone post s1)
                       (\<lambda>_ s. sbind (insert_packet e s)
                       (\<lambda>_ s. sbind (trigger_get s)
                       (\<lambda>_ s. sbind (trigger_peek s) (\<lambda>_ s. Returned () s)))) = Returned u2 s2"
        by simp
      from M' obtain v1 s3 where
        b: "succeed e PyNone post s1 = Returned v1 s3"
        and M2: "sbind (insert_packet e s3)
                       (\<lambda>_ s. sbind (trigger_get s)
                       (\<lambda>_ s. sbind (trigger_peek s) (\<lambda>_ s. Returned () s))) = Returned u2 s2"
        by (erule sbindE)
      from M2 obtain v2 s4 where
        c: "insert_packet e s3 = Returned v2 s4"
        and M3: "sbind (trigger_get s4)
                       (\<lambda>_ s. sbind (trigger_peek s) (\<lambda>_ s. Returned () s)) = Returned u2 s2"
        by (erule sbindE)
      from M3 obtain c1 s5 where
        d: "trigger_get s4 = Returned c1 s5"
        and M4: "sbind (trigger_peek s5) (\<lambda>_ s. Returned () s) = Returned u2 s2"
        by (erule sbindE)
      from M4 obtain c2 where f: "trigger_peek s5 = Returned c2 s2"
        by (auto simp: sbind_Returned_iff)
      from b have b': "succeed e PyNone post s1 = Returned e s3"
        by (auto simp: succeed_Returned)
      show thesis
        using np \<open>int (length (items s)) < capacity s\<close> False a b' c d f g h s0
        by (intro direct [of s1 post s3 s4 c1 s5 c2 s2 s6]) simp_all
    qed
  qed
qed

lemma touches_triggered: "touches E s s' \<Longrightarrow> triggered s x \<Longrightarrow> triggered s' x"
  unfolding touches_def by blast

lemma touches_tail_put:
  assumes "updatePutDebt item (s2\<lparr>lastActivity := t\<rparr>) = Returned () s6"
    and "s' = (if firstActivity s6 = None then s6\<lparr>firstActivity := Some (env_now s6)\<rparr> else s6)"
  shows "touches E s2 s'" "put_queue s' = put_queue s2" "get_queue s' = get_queue s2"
    "peek_queue s' = peek_queue s2" "events s' = events s2"
proof -
  from assms show "put_queue s' = put_queue s2" "get_queue s' = get_queue s2"
    "peek_queue s' = peek_queue s2" "events s' = events s2"
    by (auto simp: updatePutDebt_Returned)
  then show "touches E s2 s'"
    using assms by (intro touches_same_queues) (auto simp: updatePutDebt_Returned triggered_def)
qed

lemma do_put_touches:
  assumes "do_put e s = Returned p s'"
  shows "touches {e} s s'"
  using assms
proof (cases rule: do_put_cases)
  case full
  then show ?thesis by simp
next
  case (delayed s1 s3 s4 s2 s6 post)
  have 1: "touches {e} s s1" using delayed(3) by (rule touches_add_callbacks) simp
  have 2: "touches {e} s1 s2"
    using delayed(4,5,6)
    by (intro touches_same_queues)
       (auto simp: add_callbacks_Returned succeed_Returned new_event_def triggered_def)
  have 3: "touches {e} s2 s'" using delayed(7,8) by (rule touches_tail_put)
  from 1 2 3 show ?thesis by (blast intro: touches_trans)
next
  case (direct s1 s3 s4 s5 c1 c2 s2 s6 post)
  have 1: "touches {e} s s1" using direct(3) by (rule touches_add_callbacks) simp
  have 2: "touches {e} s1 s3" using direct(4) by (rule touches_succeed) simp
  have 3: "touches {e} s3 s4" using direct(5) by (rule touches_insert_packet)
  have 4: "touches {e} s4 s5" using trigger_get_touches [OF direct(6)] by (rule touches_mono) simp
  have 5: "touches {e} s5 s2" using trigger_peek_touches [OF direct(7)] by (rule touches_mono) simp
  have 6: "touches {e} s2 s'" using direct(8,9) by (rule touches_tail_put)
  from 1 2 3 4 5 6 show ?thesis by (blast intro: touches_trans)
qed

lemma do_put_put_queue:
  assumes "do_put e s = Returned p s'"
  shows "put_queue s' = put_queue s"
  using assms
proof (cases rule: do_put_cases)
  case full
  then show ?thesis by simp
next
  case (delayed s1 s3 s4 s2 s6 post)
  have "put_queue s2 = put_queue s"
    using delayed(3,4,5,6)
    by (auto simp: add_callbacks_Returned succeed_Returned new_event_def)
  with touches_tail_put(2) [OF delayed(7,8)] show ?thesis by simp
next
  case (direct s1 s3 s4 s5 c1 c2 s2 s6 post)
  have "put_queue s4 = put_queue s"
    using direct(3,4,5)
    by (auto simp: add_callbacks_Returned succeed_Returned insert_packet_Returned)
  with trigger_get_kept [OF direct(6)] trigger_peek_kept' [OF direct(7)]
    touches_tail_put(2) [OF direct(8,9)]
  show ?thesis by simp
qed

lemma do_put_stays_or_fires:
  assumes "do_put e s = Returned p s'"
  shows "\<not> p \<and> (s' = s \<or> triggered s' e)"
  using assms
proof (cases rule: do_put_cases)
  case full
  then show ?thesis by simp
next
  case (delayed s1 s3 s4 s2 s6 post)
  have "triggered s2 e" using delayed(6) by (auto simp: succeed_Returned triggered_def)
  with touches_tail_put(5) [OF delayed(7,8)] delayed(1) show ?thesis
    by (simp add: triggered_def)
next
  case (direct s1 s3 s4 s5 c1 c2 s2 s6 post)
  have "triggered s3 e" using direct(4) by (auto simp: succeed_Returned triggered_def)
  then have "triggered s4 e" using touches_insert_packet [OF direct(5)] touches_triggered by blast
  then have "triggered s5 e" using trigger_get_touches [OF direct(6)] touches_triggered by blast
  then have "triggered s2 e" using trigger_peek_touches [OF direct(7)] touches_triggered by blast
  with touches_tail_put(5) [OF direct(8,9)] direct(1) show ?thesis
    by (simp add: triggered_def)
qed

lemma trigger_put_unfold:
  "trigger_put s =
     (case put_queue s of
        [] \<Rightarrow> Returned [] s
      | e # es \<Rightarrow>
          (case do_put e s of
             Raised err s1 \<Rightarrow> Raised err s1
           | Returned proceed s1 \<Rightarrow>
               if \<not> triggered s1 e then Returned [e] s1
               else Returned [e] (s1\<lparr>put_queue := es\<rparr>)))"
proof (cases "put_queue s")
  case Nil
  then show ?thesis by (simp add: trigger_put_def trigger_put_loop.simps)
next
  case (Cons e es)
  show ?thesis
  proof (cases "do_put e s")
    case (Raised err s1)
    with Cons show ?thesis by (simp add: trigger_put_def trigger_put_loop.simps)
  next
    case (Returned p s1)
    from do_put_put_queue [OF Returned] do_put_stays_or_fires [OF Returned] Cons Returned
    show ?thesis
      by (simp add: trigger_put_def trigger_put_loop.simps)
  qed
qed

lemma trigger_put_touches:
  assumes "trigger_put s = Returned c s'"
  shows "touches {} s s'"
proof (cases "put_queue s")
  case Nil
  with assms show ?thesis by (simp add: trigger_put_unfold)
next
  case (Cons e es)
  with assms obtain p s1 where h: "do_put e s = Returned p s1"
    and r: "s' = (if \<not> triggered s1 e then s1 else s1\<lparr>put_queue := es\<rparr>)"
    by (auto simp: trigger_put_unfold split: outcome.splits if_splits)
  show ?thesis
  proof (cases "triggered s1 e")
    case False
    with do_put_stays_or_fires [OF h] r show ?thesis by auto
  next
    case True
    with r touches_pop_put [OF do_put_touches [OF h] Cons do_put_put_queue [OF h] True]
    show ?thesis by simp
  qed
qed


lemma trigger_put_kept:
  assumes "trigger_put s = Returned c s'"
  shows "put_queue s' = (if put_queue s \<noteq> [] \<and> triggered s' (hd (put_queue s))
                          then tl (put_queue s) else put_queue s)"
proof (cases "put_queue s")
  case Nil
  with assms show ?thesis by (simp add: trigger_put_unfold)
next
  case (Cons e es)
  with assms obtain p s1 where h: "do_put e s = Returned p s1"
    and r: "s' = (if \<not> triggered s1 e then s1 else s1\<lparr>put_queue := es\<rparr>)"
    by (auto simp: trigger_put_unfold split: outcome.splits if_splits)
  from do_put_put_queue [OF h] r Cons show ?thesis
    by (auto simp: triggered_def)
qed

subsection \<open>From the footprint to the queue discipline\<close>

lemma filter_take_drop:
  assumes "\<forall>x \<in> set (take k q). \<not> P x" "\<forall>x \<in> set (drop k q). P x"
  shows "filter P q = drop k q"
proof -
  have "filter P q = filter P (take k q) @ filter P (drop k q)"
    by (metis append_take_drop_id filter_append)
  also have "filter P (take k q) = []" using assms(1) by (simp add: filter_empty_conv)
  also have "filter P (drop k q) = drop k q" using assms(2) by (simp add: filter_id_conv)
  finally show ?thesis by simp
qed

lemma later_untouched_take_drop:
  assumes "\<forall>x \<in> set (take k q). \<not> P x" "\<forall>x \<in> set (drop k q). P x"
  shows "later_untouched q P"
  unfolding later_untouched_def
proof (intro allI impI)
  fix i j assume a: "i < j \<and> j < length q \<and> P (q ! i)"
  have "\<not> i < k"
  proof
    assume "i < k"
    with a have "q ! i \<in> set (take k q)" by (auto simp: in_set_conv_nth intro!: exI [of _ i])
    with assms(1) a show False by blast
  qed
  with a have "k \<le> j" "j < length q" by auto
  then have "q ! j \<in> set (drop k q)"
    by (auto simp: in_set_conv_nth intro!: exI [of _ "j - k"])
  with assms(2) show "P (q ! j)" by blast
qed

lemma touches_discipline:
  assumes t: "touches {} s s'" and inv: "all_pending s (queued s)"
  shows "all_pending s' (queued s')"
    and "put_queue s' = filter (pending s') (put_queue s)"
    and "get_queue s' = filter (pending s') (get_queue s)"
    and "peek_queue s' = filter (pending s') (peek_queue s)"
    and "later_untouched (put_queue s) (pending s')"
    and "later_untouched (get_queue s) (pending s')"
    and "later_untouched (peek_queue s) (pending s')"
proof -
  from t obtain kp kg kk where a:
    "nrefs s \<le> nrefs s'"
    "put_queue s' = drop kp (put_queue s)" "get_queue s' = drop kg (get_queue s)"
    "peek_queue s' = drop kk (peek_queue s)"
    "\<forall>x \<in> set (take kp (put_queue s)) \<union> set (take kg (get_queue s))
            \<union> set (take kk (peek_queue s)). triggered s' x"
    "\<forall>x. x < nrefs s \<and> events s' x \<noteq> events s x \<longrightarrow>
        x \<in> set (take kp (put_queue s)) \<union> set (take kg (get_queue s))
                     \<union> set (take kk (peek_queue s))"
    unfolding touches_def by blast
  let ?P = "put_queue s" and ?G = "get_queue s" and ?K = "peek_queue s"
  from inv have d: "distinct (?P @ ?G @ ?K)"
    and p: "\<forall>x \<in> set (?P @ ?G @ ?K). x < nrefs s \<and> pending s x"
    by (auto simp: all_pending_def queued_def list_all_iff)
  have dP: "set (take kp ?P) \<inter> set (drop kp ?P) = {}"
    and dG: "set (take kg ?G) \<inter> set (drop kg ?G) = {}"
    and dK: "set (take kk ?K) \<inter> set (drop kk ?K) = {}"
    using d by (simp_all add: set_take_disj_set_drop_if_distinct)
  have sub: "set (take kp ?P) \<subseteq> set ?P" "set (drop kp ?P) \<subseteq> set ?P"
    "set (take kg ?G) \<subseteq> set ?G" "set (drop kg ?G) \<subseteq> set ?G"
    "set (take kk ?K) \<subseteq> set ?K" "set (drop kk ?K) \<subseteq> set ?K"
    by (auto dest: in_set_takeD in_set_dropD)
  have disj: "set ?P \<inter> set ?G = {}" "set ?P \<inter> set ?K = {}" "set ?G \<inter> set ?K = {}"
    using d by auto
  have keep: "pending s' x"
    if "x \<in> set (drop kp ?P) \<union> set (drop kg ?G) \<union> set (drop kk ?K)" for x
  proof -
    from that sub have q: "x \<in> set (?P @ ?G @ ?K)" by auto
    with p have x: "x < nrefs s" "pending s x" by auto
    have "x \<notin> set (take kp ?P) \<union> set (take kg ?G) \<union> set (take kk ?K)"
    proof -
      from that consider (P) "x \<in> set (drop kp ?P)" | (G) "x \<in> set (drop kg ?G)"
        | (K) "x \<in> set (drop kk ?K)" by blast
      then show ?thesis
      proof cases
        case P
        then have "x \<in> set ?P" using sub(2) by blast
        then have "x \<notin> set ?G" "x \<notin> set ?K" using disj(1,2) by blast+
        then have "x \<notin> set (take kg ?G)" "x \<notin> set (take kk ?K)" using sub(3,5) by blast+
        moreover have "x \<notin> set (take kp ?P)" using P dP by blast
        ultimately show ?thesis by simp
      next
        case G
        then have "x \<in> set ?G" using sub(4) by blast
        then have "x \<notin> set ?P" "x \<notin> set ?K" using disj(1,3) by blast+
        then have "x \<notin> set (take kp ?P)" "x \<notin> set (take kk ?K)" using sub(1,5) by blast+
        moreover have "x \<notin> set (take kg ?G)" using G dG by blast
        ultimately show ?thesis by simp
      next
        case K
        then have "x \<in> set ?K" using sub(6) by blast
        then have "x \<notin> set ?P" "x \<notin> set ?G" using disj(2,3) by blast+
        then have "x \<notin> set (take kp ?P)" "x \<notin> set (take kg ?G)" using sub(1,3) by blast+
        moreover have "x \<notin> set (take kk ?K)" using K dK by blast
        ultimately show ?thesis by simp
      qed
    qed
    with a(6) x(1) have "events s' x = events s x" by blast
    with x(2) show ?thesis by (simp add: pending_def triggered_def)
  qed
  have gone: "\<not> pending s' x"
    if "x \<in> set (take kp ?P) \<union> set (take kg ?G) \<union> set (take kk ?K)" for x
    using that a(5) by (auto simp: pending_def)
  have keepP: "\<forall>x \<in> set (drop kp ?P). pending s' x"
    and keepG: "\<forall>x \<in> set (drop kg ?G). pending s' x"
    and keepK: "\<forall>x \<in> set (drop kk ?K). pending s' x"
    using keep by simp_all
  have goneP: "\<forall>x \<in> set (take kp ?P). \<not> pending s' x"
    and goneG: "\<forall>x \<in> set (take kg ?G). \<not> pending s' x"
    and goneK: "\<forall>x \<in> set (take kk ?K). \<not> pending s' x"
    using gone by simp_all
  show "put_queue s' = filter (pending s') ?P"
    unfolding a(2) by (rule filter_take_drop [OF goneP keepP, symmetric])
  show "get_queue s' = filter (pending s') ?G"
    unfolding a(3) by (rule filter_take_drop [OF goneG keepG, symmetric])
  show "peek_queue s' = filter (pending s') ?K"
    unfolding a(4) by (rule filter_take_drop [OF goneK keepK, symmetric])
  show "later_untouched ?P (pending s')"
    by (rule later_untouched_take_drop [OF goneP keepP])
  show "later_untouched ?G (pending s')"
    by (rule later_untouched_take_drop [OF goneG keepG])
  show "later_untouched ?K (pending s')"
    by (rule later_untouched_take_drop [OF goneK keepK])
  have dd: "distinct (drop kp ?P)" "distinct (drop kg ?G)" "distinct (drop kk ?K)"
    using d by simp_all
  have "set (drop kp ?P) \<inter> set (drop kg ?G) = {}" "set (drop kp ?P) \<inter> set (drop kk ?K) = {}"
    "set (drop kg ?G) \<inter> set (drop kk ?K) = {}"
    using disj sub by blast+
  with dd have "distinct (drop kp ?P @ drop kg ?G @ drop kk ?K)"
    by (simp add: Int_Un_distrib)
  moreover have "\<forall>x \<in> set (drop kp ?P @ drop kg ?G @ drop kk ?K). x < nrefs s' \<and> pending s' x"
  proof
    fix x assume x: "x \<in> set (drop kp ?P @ drop kg ?G @ drop kk ?K)"
    with sub have "x \<in> set (?P @ ?G @ ?K)" by auto
    with p have "x < nrefs s" by blast
    with a(1) have "x < nrefs s'" by simp
    moreover from x have "pending s' x" using keepP keepG keepK by auto
    ultimately show "x < nrefs s' \<and> pending s' x" by simp
  qed
  ultimately show "all_pending s' (queued s')"
    unfolding all_pending_def queued_def a(2,3,4) by (simp add: list_all_iff)
qed

subsection \<open>Resources with one queue\<close>

lemma single_queue_discipline:
  assumes inv: "all_pending s q" and n: "nrefs s \<le> nrefs s'"
    and g: "\<forall>x \<in> set (take k q). triggered s' x"
    and c: "\<forall>x. x < nrefs s \<and> events s' x \<noteq> events s x \<longrightarrow> x \<in> set (take k q)"
  shows "all_pending s' (drop k q)" and "drop k q = filter (pending s') q"
    and "later_untouched q (pending s')"
proof -
  from inv have d: "distinct q" and p: "\<forall>x \<in> set q. x < nrefs s \<and> pending s x"
    by (auto simp: all_pending_def list_all_iff)
  have dq: "set (take k q) \<inter> set (drop k q) = {}"
    using d by (rule set_take_disj_set_drop_if_distinct) simp
  have keep: "\<forall>x \<in> set (drop k q). pending s' x"
  proof
    fix x assume x: "x \<in> set (drop k q)"
    then have "x \<in> set q" by (rule in_set_dropD)
    with p have xs: "x < nrefs s" "pending s x" by auto
    from x dq have "x \<notin> set (take k q)" by blast
    with c xs(1) have "events s' x = events s x" by blast
    with xs(2) show "pending s' x" by (simp add: pending_def triggered_def)
  qed
  have gone: "\<forall>x \<in> set (take k q). \<not> pending s' x" using g by (simp add: pending_def)
  show "drop k q = filter (pending s') q" by (rule filter_take_drop [OF gone keep, symmetric])
  show "later_untouched q (pending s')" by (rule later_untouched_take_drop [OF gone keep])
  have "\<forall>x \<in> set (drop k q). x < nrefs s'"
  proof
    fix x assume "x \<in> set (drop k q)"
    then have "x \<in> set q" by (rule in_set_dropD)
    with p have "x < nrefs s" by blast
    with n show "x < nrefs s'" by simp
  qed
  with keep d show "all_pending s' (drop k q)" by (simp add: all_pending_def list_all_iff)
qed

subsection \<open>Pipeline: the put queue\<close>

lemma pl_updatePutDebt_Returned:
  "pl_updatePutDebt item s = Returned u s' \<longleftrightarrow>
     (\<exists>t d. getTicks item (pl_putBytesPerCycle s) = Inr (t, d)
        \<and> s' = s\<lparr>pl_putDebt := (pl_putDebt s + d) - (pl_putDebt s + d)\<rparr>)"
  by (auto simp: pl_updatePutDebt_def sbind_Returned_iff lift_Returned_iff)

lemma process_Returned:
  "process arg s = Returned p s' \<longleftrightarrow>
     p = nrefs s
     \<and> s' = s\<lparr>events := (events s)
                 (nrefs s := \<lparr>ev_value = None, ev_ok = None, ev_item = arg, ev_callbacks = Some []\<rparr>,
                  Suc (nrefs s) := \<lparr>ev_value = Some PyNone, ev_ok = Some True, ev_item = PyNone,
                                     ev_callbacks = Some [Cb_resume (nrefs s)]\<rparr>),
              nrefs := Suc (Suc (nrefs s)),
              env_queue := env_queue s @ [(env_now s, URGENT, env_eid s, Suc (nrefs s))],
              env_eid := Suc (env_eid s)\<rparr>"
  by (auto simp: process_def new_event_def schedule_def)

lemma pl_do_put_effect:
  assumes "pl_do_put e s = Returned p s'" and e: "e < nrefs s"
  shows "\<not> p \<and> pl_put_queue s' = pl_put_queue s \<and> triggered s' e \<and> nrefs s \<le> nrefs s'
         \<and> (\<forall>x. x < nrefs s \<and> x \<noteq> e \<longrightarrow> events s' x = events s x)"
proof -
  let ?pkt = "ev_item (events s e)"
  from assms have np: "\<not> p" and B: "pl_do_put_body e s = Returned () s'"
    by (auto simp: pl_do_put_def sbind_Returned_iff)
  from B obtain ticks s0 where l: "lift (pl_addPostPutDelay ?pkt s) s = Returned ticks s0"
    and K: "sbind (add_callbacks e [Cb_postPutMsg] s0) (\<lambda>_ s.
         sbind (add_callbacks e [Cb_updateTotalBitsSent] s) (\<lambda>_ s.
         sbind (lift (pl_addPostPutDelay ?pkt s) s) (\<lambda>_ s.
         sbind (succeed e PyNone ticks s) (\<lambda>_ s.
         sbind (process ?pkt s) (\<lambda>_ s.
         pl_updatePutDebt ?pkt
           (if pl_firstActivity s = None then s\<lparr>pl_firstActivity := Some (env_now s)\<rparr>
            else s)))))) = Returned () s'"
    unfolding pl_do_put_body_def Let_def by (erule sbindE)
  from l have s0: "s0 = s" by (simp add: lift_Returned_iff)
  from K obtain u1 s1 where a1: "add_callbacks e [Cb_postPutMsg] s0 = Returned u1 s1"
    and K1: "sbind (add_callbacks e [Cb_updateTotalBitsSent] s1) (\<lambda>_ s.
         sbind (lift (pl_addPostPutDelay ?pkt s) s) (\<lambda>_ s.
         sbind (succeed e PyNone ticks s) (\<lambda>_ s.
         sbind (process ?pkt s) (\<lambda>_ s.
         pl_updatePutDebt ?pkt
           (if pl_firstActivity s = None then s\<lparr>pl_firstActivity := Some (env_now s)\<rparr>
            else s))))) = Returned () s'"
    by (erule sbindE)
  from K1 obtain u2 s2 where a2: "add_callbacks e [Cb_updateTotalBitsSent] s1 = Returned u2 s2"
    and K2: "sbind (lift (pl_addPostPutDelay ?pkt s2) s2) (\<lambda>_ s.
         sbind (succeed e PyNone ticks s) (\<lambda>_ s.
         sbind (process ?pkt s) (\<lambda>_ s.
         pl_updatePutDebt ?pkt
           (if pl_firstActivity s = None then s\<lparr>pl_firstActivity := Some (env_now s)\<rparr>
            else s)))) = Returned () s'"
    by (erule sbindE)
  from K2 obtain u3 s3 where a3: "lift (pl_addPostPutDelay ?pkt s2) s2 = Returned u3 s3"
    and K3: "sbind (succeed e PyNone ticks s3) (\<lambda>_ s.
         sbind (process ?pkt s) (\<lambda>_ s.
         pl_updatePutDebt ?pkt
           (if pl_firstActivity s = None then s\<lparr>pl_firstActivity := Some (env_now s)\<rparr>
            else s))) = Returned () s'"
    by (erule sbindE)
  from K3 obtain u4 s4 where a4: "succeed e PyNone ticks s3 = Returned u4 s4"
    and K4: "sbind (process ?pkt s4) (\<lambda>_ s.
         pl_updatePutDebt ?pkt
           (if pl_firstActivity s = None then s\<lparr>pl_firstActivity := Some (env_now s)\<rparr>
            else s)) = Returned () s'"
    by (erule sbindE)
  from K4 obtain u5 s5 where a5: "process ?pkt s4 = Returned u5 s5"
    and a6: "pl_updatePutDebt ?pkt
           (if pl_firstActivity s5 = None then s5\<lparr>pl_firstActivity := Some (env_now s5)\<rparr>
            else s5) = Returned () s'"
    by (erule sbindE)
  have q4: "pl_put_queue s4 = pl_put_queue s" "nrefs s4 = nrefs s" "triggered s4 e"
    "\<forall>x. x \<noteq> e \<longrightarrow> events s4 x = events s x"
    using a1 a2 a3 a4 s0
    by (auto simp: add_callbacks_Returned succeed_Returned lift_Returned_iff triggered_def)
  have q5: "pl_put_queue s5 = pl_put_queue s4" "nrefs s4 \<le> nrefs s5"
    "\<forall>x. x < nrefs s4 \<longrightarrow> events s5 x = events s4 x"
    using a5 by (auto simp: process_Returned)
  have q6: "pl_put_queue s' = pl_put_queue s5" "nrefs s' = nrefs s5" "events s' = events s5"
    using a6 by (auto simp: pl_updatePutDebt_Returned split: if_splits)
  from q4(3) q5(3) q4(2) e have "triggered s5 e" by (simp add: triggered_def)
  with q6(3) have te: "triggered s' e" by (simp add: triggered_def)
  have "\<forall>x. x < nrefs s \<and> x \<noteq> e \<longrightarrow> events s' x = events s x"
    using q4(2,4) q5(3) q6(3) by simp
  with np q4(1,2) q5(1,2) q6(1,2) te show ?thesis by simp
qed

lemma pl_trigger_put_unfold:
  "pl_trigger_put s =
     (case pl_put_queue s of
        [] \<Rightarrow> Returned [] s
      | e # es \<Rightarrow>
          (case pl_do_put e s of
             Raised err s1 \<Rightarrow> Raised err s1
           | Returned proceed s1 \<Rightarrow>
               if \<not> triggered s1 e then Returned [e] s1
               else if pl_put_queue s1 = [] then Raised IndexError s1
               else if hd (pl_put_queue s1) \<noteq> e
                 then Raised RuntimeError (s1\<lparr>pl_put_queue := tl (pl_put_queue s1)\<rparr>)
               else Returned [e] (s1\<lparr>pl_put_queue := tl (pl_put_queue s1)\<rparr>)))"
proof (cases "pl_put_queue s")
  case Nil
  then show ?thesis by (simp add: pl_trigger_put_def pl_trigger_put_loop.simps)
next
  case (Cons e es)
  show ?thesis
  proof (cases "pl_do_put e s")
    case (Raised err s1)
    with Cons show ?thesis by (simp add: pl_trigger_put_def pl_trigger_put_loop.simps)
  next
    case (Returned p s1)
    then have "\<not> p" by (auto simp: pl_do_put_def sbind_Returned_iff)
    with Cons Returned show ?thesis
      by (simp add: pl_trigger_put_def pl_trigger_put_loop.simps hd_conv_nth)
  qed
qed

lemma pl_trigger_put_effect:
  assumes r: "pl_trigger_put s = Returned c s'" and inv: "all_pending s (pl_put_queue s)"
  shows "c = take 1 (pl_put_queue s)
         \<and> (\<exists>k \<le> 1. pl_put_queue s' = drop k (pl_put_queue s)
               \<and> (\<forall>x \<in> set (take k (pl_put_queue s)). triggered s' x)
               \<and> (\<forall>x. x < nrefs s \<and> events s' x \<noteq> events s x \<longrightarrow>
                      x \<in> set (take k (pl_put_queue s))))
         \<and> nrefs s \<le> nrefs s'"
proof (cases "pl_put_queue s")
  case Nil
  with r have "c = [] \<and> s' = s" by (auto simp: pl_trigger_put_unfold)
  with Nil show ?thesis by (intro conjI exI [of _ 0]) simp_all
next
  case (Cons e es)
  from inv Cons have e: "e < nrefs s" by (simp add: all_pending_def)
  from r Cons obtain p s1 where h: "pl_do_put e s = Returned p s1"
    by (auto simp: pl_trigger_put_unfold split: outcome.splits)
  note eff = pl_do_put_effect [OF h e]
  from r Cons h eff have s': "s' = s1\<lparr>pl_put_queue := es\<rparr>" and c: "c = [e]"
    by (auto simp: pl_trigger_put_unfold split: if_splits)
  have "pl_put_queue s' = drop 1 (pl_put_queue s)" using s' Cons by simp
  moreover have "\<forall>x \<in> set (take 1 (pl_put_queue s)). triggered s' x"
    using eff s' Cons by (simp add: triggered_def)
  moreover have "\<forall>x. x < nrefs s \<and> events s' x \<noteq> events s x \<longrightarrow>
                      x \<in> set (take 1 (pl_put_queue s))"
    using eff s' Cons by auto
  moreover have "nrefs s \<le> nrefs s'" using eff s' by simp
  ultimately show ?thesis using c Cons by (intro conjI exI [of _ 1]) simp_all
qed

subsection \<open>Credit buffer: the peek queue\<close>

lemma cb_do_peek_effect:
  assumes "cb_do_peek e s = Returned p s1"
  shows "cb_peek_queue s1 = cb_peek_queue s \<and> nrefs s1 = nrefs s
         \<and> (\<forall>x. x \<noteq> e \<longrightarrow> events s1 x = events s x)
         \<and> (p \<longrightarrow> triggered s1 e) \<and> (\<not> p \<longrightarrow> s1 = s)
         \<and> (\<forall>x. triggered s x \<longrightarrow> triggered s1 x)"
  using assms
  by (auto simp: cb_do_peek_def sbind_Returned_iff succeed_Returned triggered_def
           split: pyval.splits if_splits)

lemma cb_loop_effect:
  assumes "cb_trigger_peek_loop 0 chk s = Returned c s'"
  shows "\<exists>k j. j \<le> k \<and> k \<le> length (cb_peek_queue s) \<and> c = chk @ take k (cb_peek_queue s)
           \<and> (\<forall>i < k. pending s' (cb_peek_queue s ! i) \<longrightarrow> Suc i = k)
           \<and> cb_peek_queue s' = drop j (cb_peek_queue s)
           \<and> (\<forall>x \<in> set (take j (cb_peek_queue s)). triggered s' x)
           \<and> (\<forall>x. events s' x \<noteq> events s x \<longrightarrow> x \<in> set (take j (cb_peek_queue s)))
           \<and> nrefs s' = nrefs s \<and> (\<forall>x. triggered s x \<longrightarrow> triggered s' x)"
  using assms
proof (induction n \<equiv> "length (cb_peek_queue s)" arbitrary: s chk)
  case 0
  then have "c = chk" "s' = s" by (simp_all add: cb_trigger_peek_loop.simps)
  with 0 show ?case by (intro exI [of _ 0]) simp
next
  case (Suc n)
  then obtain e es where q: "cb_peek_queue s = e # es" by (cases "cb_peek_queue s") auto
  from Suc.prems q obtain p s1 where h: "cb_do_peek e s = Returned p s1"
    by (subst (asm) cb_trigger_peek_loop.simps) (auto split: outcome.splits)
  note eff = cb_do_peek_effect [OF h]
  show ?case
  proof (cases p)
    case True
    let ?s2 = "s1\<lparr>cb_peek_queue := es\<rparr>"
    from eff True have t1: "triggered s1 e" by simp
    from Suc.prems q h True t1 eff
    have rec: "cb_trigger_peek_loop 0 (chk @ [e]) ?s2 = Returned c s'"
      by (subst (asm) cb_trigger_peek_loop.simps) simp
    have len: "n = length (cb_peek_queue ?s2)" using Suc.hyps(2) q by simp
    from Suc.hyps(1) [OF len rec] obtain k j where ih:
      "j \<le> k" "k \<le> length es" "c = (chk @ [e]) @ take k es"
      "\<forall>i < k. pending s' (es ! i) \<longrightarrow> Suc i = k"
      "cb_peek_queue s' = drop j es"
      "\<forall>x \<in> set (take j es). triggered s' x"
      "\<forall>x. events s' x \<noteq> events ?s2 x \<longrightarrow> x \<in> set (take j es)"
      "nrefs s' = nrefs ?s2" "\<forall>x. triggered ?s2 x \<longrightarrow> triggered s' x"
      by auto
    have te: "triggered s' e" using ih(9) t1 by (simp add: triggered_def)
    have 1: "\<forall>i < Suc k. pending s' ((e # es) ! i) \<longrightarrow> Suc i = Suc k"
    proof (intro allI impI)
      fix i assume i: "i < Suc k" "pending s' ((e # es) ! i)"
      show "Suc i = Suc k"
      proof (cases i)
        case 0
        with i(2) te show ?thesis by (simp add: pending_def)
      next
        case (Suc i')
        with i ih(4) show ?thesis by simp
      qed
    qed
    have 2: "\<forall>x. events s' x \<noteq> events s x \<longrightarrow> x \<in> set (take (Suc j) (e # es))"
    proof (intro allI impI)
      fix x assume x: "events s' x \<noteq> events s x"
      show "x \<in> set (take (Suc j) (e # es))"
      proof (cases "x = e")
        case True
        then show ?thesis by simp
      next
        case False
        with eff have "events s1 x = events s x" by simp
        with x have "events s' x \<noteq> events ?s2 x" by simp
        with ih(7) show ?thesis by simp
      qed
    qed
    have 3: "\<forall>x. triggered s x \<longrightarrow> triggered s' x"
      using eff ih(9) by (simp add: triggered_def)
    show ?thesis
      unfolding q
      apply (rule exI [of _ "Suc k"], rule exI [of _ "Suc j"])
      using ih(1,2,3,5,6,8) te 1 2 3 eff
      apply simp
      done
  next
    case False
    with eff have s1: "s1 = s" by simp
    show ?thesis
    proof (cases "triggered s e")
      case True
      from Suc.prems q h False s1 True
      have "c = chk @ [e]" "s' = s\<lparr>cb_peek_queue := es\<rparr>"
        by (subst (asm) cb_trigger_peek_loop.simps, simp)+
      then show ?thesis
        unfolding q
        apply (intro exI [of _ 1])
        using True apply (simp add: pending_def triggered_def)
        done
    next
      case nt: False
      from Suc.prems q h False s1 nt
      have "c = chk @ [e]" "s' = s"
        by (subst (asm) cb_trigger_peek_loop.simps, simp)+
      moreover have "cb_peek_queue s = e # es" by (rule q)
      ultimately show ?thesis
        apply -
        apply (rule exI [of _ 1], rule exI [of _ 0])
        apply simp
        done
    qed
  qed
qed

subsection \<open>Head-of-line scanning\<close>



lemma cb_trigger_peek_discipline:
  assumes r: "cb_trigger_peek s = Returned c s'"
  shows "head_of_line (cb_peek_queue s) c (pending s')"
    and "all_pending s (cb_peek_queue s) \<Longrightarrow>
           all_pending s' (cb_peek_queue s')
           \<and> cb_peek_queue s' = filter (pending s') (cb_peek_queue s)
           \<and> later_untouched (cb_peek_queue s) (pending s')"
proof -
  from r have "cb_trigger_peek_loop 0 [] s = Returned c s'" by (simp add: cb_trigger_peek_def)
  from cb_loop_effect [OF this] obtain k j where e:
    "j \<le> k" "k \<le> length (cb_peek_queue s)" "c = take k (cb_peek_queue s)"
    "\<forall>i < k. pending s' (cb_peek_queue s ! i) \<longrightarrow> Suc i = k"
    "cb_peek_queue s' = drop j (cb_peek_queue s)"
    "\<forall>x \<in> set (take j (cb_peek_queue s)). triggered s' x"
    "\<forall>x. events s' x \<noteq> events s x \<longrightarrow> x \<in> set (take j (cb_peek_queue s))"
    "nrefs s' = nrefs s"
    by auto
  from e(2,3,4) show "head_of_line (cb_peek_queue s) c (pending s')"
    unfolding head_of_line_def by blast
  assume inv: "all_pending s (cb_peek_queue s)"
  have n: "nrefs s \<le> nrefs s'" using e(8) by simp
  have c: "\<forall>x. x < nrefs s \<and> events s' x \<noteq> events s x \<longrightarrow> x \<in> set (take j (cb_peek_queue s))"
    using e(7) by blast
  from single_queue_discipline [OF inv n e(6) c] e(5)
  show "all_pending s' (cb_peek_queue s')
           \<and> cb_peek_queue s' = filter (pending s') (cb_peek_queue s)
           \<and> later_untouched (cb_peek_queue s) (pending s')"
    by simp
qed

lemma pl_trigger_put_discipline:
  assumes r: "pl_trigger_put s = Returned c s'" and inv: "all_pending s (pl_put_queue s)"
  shows "all_pending s' (pl_put_queue s')
         \<and> pl_put_queue s' = filter (pending s') (pl_put_queue s)
         \<and> later_untouched (pl_put_queue s) (pending s')"
proof -
  from pl_trigger_put_effect [OF r inv] obtain k where e:
    "pl_put_queue s' = drop k (pl_put_queue s)"
    "\<forall>x \<in> set (take k (pl_put_queue s)). triggered s' x"
    "\<forall>x. x < nrefs s \<and> events s' x \<noteq> events s x \<longrightarrow> x \<in> set (take k (pl_put_queue s))"
    "nrefs s \<le> nrefs s'"
    by blast
  from single_queue_discipline [OF inv e(4) e(2) e(3)] e(1) show ?thesis by simp
qed


lemma bq_inv: "all_pending bq (queued bq)"
  by (simp add: all_pending_def queued_def bq_def pending_def triggered_def blank_event_def
      Buffer_init_def)

lemma bq_put: "case trigger_put bq of Returned c s \<Rightarrow> c = [0] | Raised e s \<Rightarrow> False"
  by code_simp

lemma bq_get: "case trigger_get bq of Returned c s \<Rightarrow> c = [1] \<and> get_queue s = [] | Raised e s \<Rightarrow> False"
  by code_simp

lemma bq_peek: "case trigger_peek bq of Returned c s \<Rightarrow> c = [2] \<and> peek_queue s = [3] | Raised e s \<Rightarrow> False"
  by code_simp

lemma cb3_inv: "all_pending cb3 (cb_peek_queue cb3)"
  by (simp add: all_pending_def cb3_def pending_def triggered_def blank_event_def)

lemma cb3_peek: "case cb_trigger_peek cb3 of Returned c s \<Rightarrow> c = [0, 1] \<and> cb_peek_queue s = [1, 2] | Raised e s \<Rightarrow> False"
  by code_simp

lemma pl1_inv: "all_pending pl1 (pl_put_queue pl1)"
  by (simp add: all_pending_def pl1_def pending_def triggered_def)

lemma pl1_put: "case pl_trigger_put pl1 of Returned c s \<Rightarrow> c = [0] \<and> pl_put_queue s = [] | Raised e s \<Rightarrow> False"
  by code_simp


lemma bv0_peek: "peek (Buffer_init 1 1 0 0) = Returned 0 bv0"
  by (simp add: peek_def new_event_def trigger_peek_unfold do_peek_def bv0_def Buffer_init_def
      triggered_def fun_eq_iff)

lemma bv_succeed: "succeed 0 PyNone 0 bv0 = Returned 0 bv"
  by (simp add: succeed_def schedule_def bv_def bv0_def Buffer_init_def blank_event_def)

subsection \<open>The queue invariant\<close>

text \<open>
  C3, the claim as stated: every queued request is pending, a request is removed the
  instant it succeeds, and a resolved request found at its scanned position makes the
  consistency check raise RuntimeError. The check of the trigger routines is
  \<open>queue.pop(idx) != event\<close>: it pops the element at the scanned position and raises only
  when that element is not the scanned request. In \<open>bq\<close> the hook resolves the peek
  request 2, which is then found resolved at position 0 of the queue, and the routine
  removes it and returns. In \<open>bv\<close> the queued request was resolved by its caller, so
  the invariant is broken before the routine runs; the buffer is empty, the hook does
  nothing, and the routine again removes the request and returns without an error.
\<close>

theorem resolved_request_popped_without_error:
  "do_peek 2 bq
     = Returned False
         (bq\<lparr>env_eid := 1, env_queue := [(0, NORMAL, 0, 2)],
             events := (events bq)(2 := blank_event\<lparr>ev_value := Some pkt0, ev_ok := Some True\<rparr>)\<rparr>)
   \<and> triggered
         (bq\<lparr>env_eid := 1, env_queue := [(0, NORMAL, 0, 2)],
             events := (events bq)(2 := blank_event\<lparr>ev_value := Some pkt0, ev_ok := Some True\<rparr>)\<rparr>) 2
   \<and> peek_queue
         (bq\<lparr>env_eid := 1, env_queue := [(0, NORMAL, 0, 2)],
             events := (events bq)(2 := blank_event\<lparr>ev_value := Some pkt0, ev_ok := Some True\<rparr>)\<rparr>) ! 0
       = 2
   \<and> trigger_peek bq
       = Returned [2]
           (bq\<lparr>env_eid := 1, env_queue := [(0, NORMAL, 0, 2)],
               events := (events bq)(2 := blank_event\<lparr>ev_value := Some pkt0, ev_ok := Some True\<rparr>),
               peek_queue := [3]\<rparr>)
   \<and> peek (Buffer_init 1 1 0 0) = Returned 0 bv0
   \<and> succeed 0 PyNone 0 bv0 = Returned 0 bv
   \<and> triggered bv 0 \<and> peek_queue bv ! 0 = 0
   \<and> trigger_peek bv = Returned [0] (bv\<lparr>peek_queue := []\<rparr>)"
proof -
  let ?s1 = "bq\<lparr>env_eid := 1, env_queue := [(0, NORMAL, 0, 2)],
             events := (events bq)(2 := blank_event\<lparr>ev_value := Some pkt0, ev_ok := Some True\<rparr>)\<rparr>"
  have a: "do_peek 2 bq = Returned False ?s1"
    by (simp add: do_peek_def succeed_def schedule_def bq_def Buffer_init_def blank_event_def)
  have pq: "peek_queue bq = [2, 3]" by (simp add: bq_def)
  have b: "triggered ?s1 2" by (simp add: triggered_def)
  have c: "peek_queue ?s1 ! 0 = 2" by (simp add: bq_def)
  have d: "trigger_peek bq = Returned [2] (?s1\<lparr>peek_queue := [3]\<rparr>)"
    using b by (simp add: trigger_peek_unfold pq a)
  have e: "triggered bv 0" "peek_queue bv ! 0 = 0"
    by (simp_all add: triggered_def bv_def bv0_def)
  have pv: "peek_queue bv = [0]" "items bv = []" by (simp_all add: bv_def bv0_def Buffer_init_def)
  have iv: "triggered bv 0" by (rule e)
  have f: "trigger_peek bv = Returned [0] (bv\<lparr>peek_queue := []\<rparr>)"
    using iv by (simp add: trigger_peek_unfold do_peek_def pv)
  from a b c d bv0_peek bv_succeed e f show ?thesis by (intro conjI)
qed

lemma cb_trigger_peek_pop:
  assumes q: "cb_peek_queue s = e # es" and h: "cb_do_peek e s = Returned p s1"
    and t: "triggered s1 e"
  shows "cb_trigger_peek s
           = (if p then cb_trigger_peek_loop 0 [e] (s1\<lparr>cb_peek_queue := es\<rparr>)
              else Returned [e] (s1\<lparr>cb_peek_queue := es\<rparr>))"
proof -
  from cb_do_peek_effect [OF h] have q1: "cb_peek_queue s1 = e # es" using q by simp
  show ?thesis
    unfolding cb_trigger_peek_def
    by (subst cb_trigger_peek_loop.simps) (simp add: q h t q1 list_pop_def)
qed

lemma pl_trigger_put_pop:
  assumes inv: "all_pending s (pl_put_queue s)" and q: "pl_put_queue s = e # es"
    and h: "pl_do_put e s = Returned p s1"
  shows "triggered s1 e \<and> pl_trigger_put s = Returned [e] (s1\<lparr>pl_put_queue := es\<rparr>)"
proof -
  from inv q have e: "e < nrefs s" by (simp add: all_pending_def)
  from pl_do_put_effect [OF h e] have f: "pl_put_queue s1 = e # es" "triggered s1 e"
    using q by simp_all
  show ?thesis by (simp add: pl_trigger_put_unfold q h f)
qed

text \<open>
  C3, amended. A trigger routine that is called with every queued request pending
  (and no request queued twice) and returns leaves every queued request pending, and
  each queue is the queue it found without the requests resolved during the call: a
  request is removed by the routine that resolved it, before that routine returns.
  This holds for the three queues of a buffer (each routine may resolve requests of the
  other queues through the hooks it calls), for the peek queue of a credit buffer and
  for the put queue of a pipeline. A request that is resolved when its hook returns
  is popped at its scanned position and the routine returns (for the credit buffer,
  goes on with the next request when the hook returned \<open>True\<close>); the consistency
  check does not raise.
\<close>

theorem trigger_keeps_queue_invariant:
  "(all_pending b (queued b) \<and> trigger_put b = Returned c1 b1 \<longrightarrow>
      all_pending b1 (queued b1) \<and> put_queue b1 = filter (pending b1) (put_queue b)
      \<and> get_queue b1 = filter (pending b1) (get_queue b)
      \<and> peek_queue b1 = filter (pending b1) (peek_queue b))
   \<and> (all_pending b (queued b) \<and> trigger_get b = Returned c2 b2 \<longrightarrow>
      all_pending b2 (queued b2) \<and> put_queue b2 = filter (pending b2) (put_queue b)
      \<and> get_queue b2 = filter (pending b2) (get_queue b)
      \<and> peek_queue b2 = filter (pending b2) (peek_queue b))
   \<and> (all_pending b (queued b) \<and> trigger_peek b = Returned c3 b3 \<longrightarrow>
      all_pending b3 (queued b3) \<and> put_queue b3 = filter (pending b3) (put_queue b)
      \<and> get_queue b3 = filter (pending b3) (get_queue b)
      \<and> peek_queue b3 = filter (pending b3) (peek_queue b))
   \<and> (all_pending cb (cb_peek_queue cb) \<and> cb_trigger_peek cb = Returned c4 cb' \<longrightarrow>
      all_pending cb' (cb_peek_queue cb')
      \<and> cb_peek_queue cb' = filter (pending cb') (cb_peek_queue cb))
   \<and> (all_pending pl (pl_put_queue pl) \<and> pl_trigger_put pl = Returned c5 pl' \<longrightarrow>
      all_pending pl' (pl_put_queue pl')
      \<and> pl_put_queue pl' = filter (pending pl') (pl_put_queue pl))
   \<and> (put_queue b = e # es \<and> do_put e b = Returned p s1 \<and> triggered s1 e \<longrightarrow>
      trigger_put b = Returned [e] (s1\<lparr>put_queue := es\<rparr>))
   \<and> (get_queue b = e # es \<and> do_get e b = Returned p s1 \<and> triggered s1 e \<longrightarrow>
      trigger_get b = Returned [e] (s1\<lparr>get_queue := es\<rparr>))
   \<and> (peek_queue b = e # es \<and> do_peek e b = Returned p s1 \<and> triggered s1 e \<longrightarrow>
      trigger_peek b = Returned [e] (s1\<lparr>peek_queue := es\<rparr>))
   \<and> (cb_peek_queue cb = e # es \<and> cb_do_peek e cb = Returned p cbs \<and> triggered cbs e \<longrightarrow>
      cb_trigger_peek cb
        = (if p then cb_trigger_peek_loop 0 [e] (cbs\<lparr>cb_peek_queue := es\<rparr>)
           else Returned [e] (cbs\<lparr>cb_peek_queue := es\<rparr>)))
   \<and> (all_pending pl (pl_put_queue pl) \<and> pl_put_queue pl = e # es
        \<and> pl_do_put e pl = Returned p pls \<longrightarrow>
      triggered pls e \<and> pl_trigger_put pl = Returned [e] (pls\<lparr>pl_put_queue := es\<rparr>))"
proof (intro conjI impI; (elim conjE)?)
  assume i: "all_pending b (queued b)" and r: "trigger_put b = Returned c1 b1"
  from trigger_put_touches [OF r] i show "all_pending b1 (queued b1)"
    "put_queue b1 = filter (pending b1) (put_queue b)"
    "get_queue b1 = filter (pending b1) (get_queue b)"
    "peek_queue b1 = filter (pending b1) (peek_queue b)"
    by (rule touches_discipline)+
next
  assume i: "all_pending b (queued b)" and r: "trigger_get b = Returned c2 b2"
  from trigger_get_touches [OF r] i show "all_pending b2 (queued b2)"
    "put_queue b2 = filter (pending b2) (put_queue b)"
    "get_queue b2 = filter (pending b2) (get_queue b)"
    "peek_queue b2 = filter (pending b2) (peek_queue b)"
    by (rule touches_discipline)+
next
  assume i: "all_pending b (queued b)" and r: "trigger_peek b = Returned c3 b3"
  from trigger_peek_touches [OF r] i show "all_pending b3 (queued b3)"
    "put_queue b3 = filter (pending b3) (put_queue b)"
    "get_queue b3 = filter (pending b3) (get_queue b)"
    "peek_queue b3 = filter (pending b3) (peek_queue b)"
    by (rule touches_discipline)+
next
  assume i: "all_pending cb (cb_peek_queue cb)" and r: "cb_trigger_peek cb = Returned c4 cb'"
  from cb_trigger_peek_discipline(2) [OF r i]
  show "all_pending cb' (cb_peek_queue cb')"
    "cb_peek_queue cb' = filter (pending cb') (cb_peek_queue cb)"
    by blast+
next
  assume i: "all_pending pl (pl_put_queue pl)" and r: "pl_trigger_put pl = Returned c5 pl'"
  from pl_trigger_put_discipline [OF r i]
  show "all_pending pl' (pl_put_queue pl')"
    "pl_put_queue pl' = filter (pending pl') (pl_put_queue pl)"
    by blast+
next
  assume "put_queue b = e # es" "do_put e b = Returned p s1" "triggered s1 e"
  then show "trigger_put b = Returned [e] (s1\<lparr>put_queue := es\<rparr>)"
    by (simp add: trigger_put_unfold)
next
  assume "get_queue b = e # es" "do_get e b = Returned p s1" "triggered s1 e"
  then show "trigger_get b = Returned [e] (s1\<lparr>get_queue := es\<rparr>)"
    by (simp add: trigger_get_unfold)
next
  assume "peek_queue b = e # es" "do_peek e b = Returned p s1" "triggered s1 e"
  then show "trigger_peek b = Returned [e] (s1\<lparr>peek_queue := es\<rparr>)"
    by (simp add: trigger_peek_unfold)
next
  assume "cb_peek_queue cb = e # es" "cb_do_peek e cb = Returned p cbs" "triggered cbs e"
  then show "cb_trigger_peek cb
        = (if p then cb_trigger_peek_loop 0 [e] (cbs\<lparr>cb_peek_queue := es\<rparr>)
           else Returned [e] (cbs\<lparr>cb_peek_queue := es\<rparr>))"
    by (rule cb_trigger_peek_pop)
next
  assume a: "all_pending pl (pl_put_queue pl)" "pl_put_queue pl = e # es"
    "pl_do_put e pl = Returned p pls"
  from pl_trigger_put_pop [OF a] show "triggered pls e"
    "pl_trigger_put pl = Returned [e] (pls\<lparr>pl_put_queue := es\<rparr>)"
    by blast+
qed

lemma bq_do_get: "case do_get 1 bq of Returned p s \<Rightarrow> triggered s 1 | Raised e s \<Rightarrow> False"
  by code_simp

lemma bq_do_peek: "case do_peek 2 bq of Returned p s \<Rightarrow> triggered s 2 | Raised e s \<Rightarrow> False"
  by code_simp

lemma bq_do_put:
  "case do_put 0 (bq\<lparr>capacity := 2\<rparr>) of Returned p s \<Rightarrow> triggered s 0 | Raised e s \<Rightarrow> False"
  by code_simp

lemma cb3_do_peek:
  "case cb_do_peek 0 cb3 of Returned p s \<Rightarrow> p \<and> triggered s 0 | Raised e s \<Rightarrow> False"
  by code_simp

lemma pl1_do_put: "case pl_do_put 0 pl1 of Returned p s \<Rightarrow> True | Raised e s \<Rightarrow> False"
  by code_simp

theorem trigger_keeps_queue_invariant_witness:
  "all_pending bq (queued bq)
   \<and> (\<exists>c s. trigger_put bq = Returned c s \<and> all_pending s (queued s)
          \<and> put_queue s = filter (pending s) (put_queue bq))
   \<and> (\<exists>c s. trigger_get bq = Returned c s \<and> all_pending s (queued s) \<and> get_queue s = []
          \<and> get_queue s = filter (pending s) (get_queue bq))
   \<and> (\<exists>c s. trigger_peek bq = Returned c s \<and> all_pending s (queued s) \<and> peek_queue s = [3]
          \<and> peek_queue s = filter (pending s) (peek_queue bq))
   \<and> all_pending cb3 (cb_peek_queue cb3)
   \<and> (\<exists>c s. cb_trigger_peek cb3 = Returned c s \<and> all_pending s (cb_peek_queue s)
          \<and> cb_peek_queue s = [1, 2]
          \<and> cb_peek_queue s = filter (pending s) (cb_peek_queue cb3))
   \<and> all_pending pl1 (pl_put_queue pl1)
   \<and> (\<exists>c s. pl_trigger_put pl1 = Returned c s \<and> all_pending s (pl_put_queue s)
          \<and> pl_put_queue s = []
          \<and> pl_put_queue s = filter (pending s) (pl_put_queue pl1))
   \<and> (\<exists>p s. do_put 0 (bq\<lparr>capacity := 2\<rparr>) = Returned p s \<and> triggered s 0
          \<and> trigger_put (bq\<lparr>capacity := 2\<rparr>) = Returned [0] (s\<lparr>put_queue := []\<rparr>))
   \<and> (\<exists>p s. do_get 1 bq = Returned p s \<and> triggered s 1
          \<and> trigger_get bq = Returned [1] (s\<lparr>get_queue := []\<rparr>))
   \<and> (\<exists>p s. do_peek 2 bq = Returned p s \<and> triggered s 2
          \<and> trigger_peek bq = Returned [2] (s\<lparr>peek_queue := [3]\<rparr>))
   \<and> (\<exists>s. cb_do_peek 0 cb3 = Returned True s \<and> triggered s 0
          \<and> cb_trigger_peek cb3 = cb_trigger_peek_loop 0 [0] (s\<lparr>cb_peek_queue := [1, 2]\<rparr>))
   \<and> (\<exists>p s. pl_do_put 0 pl1 = Returned p s \<and> triggered s 0
          \<and> pl_trigger_put pl1 = Returned [0] (s\<lparr>pl_put_queue := []\<rparr>))"
proof -
  note T = trigger_keeps_queue_invariant
  from bq_put obtain c1 b1 where r1: "trigger_put bq = Returned c1 b1"
    by (cases "trigger_put bq") auto
  from bq_get obtain c2 b2 where r2: "trigger_get bq = Returned c2 b2" "get_queue b2 = []"
    by (cases "trigger_get bq") auto
  from bq_peek obtain c3 b3 where r3: "trigger_peek bq = Returned c3 b3" "peek_queue b3 = [3]"
    by (cases "trigger_peek bq") auto
  from cb3_peek obtain c4 s4 where r4: "cb_trigger_peek cb3 = Returned c4 s4"
    "cb_peek_queue s4 = [1, 2]"
    by (cases "cb_trigger_peek cb3") auto
  from pl1_put obtain c5 s5 where r5: "pl_trigger_put pl1 = Returned c5 s5"
    "pl_put_queue s5 = []"
    by (cases "pl_trigger_put pl1") auto
  from bq_do_put obtain p6 s6 where r6: "do_put 0 (bq\<lparr>capacity := 2\<rparr>) = Returned p6 s6"
    "triggered s6 0"
    by (cases "do_put 0 (bq\<lparr>capacity := 2\<rparr>)") auto
  from bq_do_get obtain p7 s7 where r7: "do_get 1 bq = Returned p7 s7" "triggered s7 1"
    by (cases "do_get 1 bq") auto
  from bq_do_peek obtain p8 s8 where r8: "do_peek 2 bq = Returned p8 s8" "triggered s8 2"
    by (cases "do_peek 2 bq") auto
  from cb3_do_peek obtain s9 where r9: "cb_do_peek 0 cb3 = Returned True s9" "triggered s9 0"
    by (cases "cb_do_peek 0 cb3") auto
  from pl1_do_put obtain p10 s10 where r10: "pl_do_put 0 pl1 = Returned p10 s10"
    by (cases "pl_do_put 0 pl1") auto
  have q: "put_queue (bq\<lparr>capacity := 2\<rparr>) = [0]" "get_queue bq = [1]" "peek_queue bq = [2, 3]"
    "cb_peek_queue cb3 = [0, 1, 2]" "pl_put_queue pl1 = [0]"
    by (simp_all add: bq_def cb3_def pl1_def)
  note A1 = T [THEN conjunct1, rule_format]
  note A2 = T [THEN conjunct2, THEN conjunct1, rule_format]
  note A3 = T [THEN conjunct2, THEN conjunct2, THEN conjunct1, rule_format]
  note A4 = T [THEN conjunct2, THEN conjunct2, THEN conjunct2, THEN conjunct1, rule_format]
  note A5 = T [THEN conjunct2, THEN conjunct2, THEN conjunct2, THEN conjunct2, THEN conjunct1,
      rule_format]
  note B1 = T [THEN conjunct2, THEN conjunct2, THEN conjunct2, THEN conjunct2, THEN conjunct2,
      THEN conjunct1, rule_format]
  note B2 = T [THEN conjunct2, THEN conjunct2, THEN conjunct2, THEN conjunct2, THEN conjunct2,
      THEN conjunct2, THEN conjunct1, rule_format]
  note B3 = T [THEN conjunct2, THEN conjunct2, THEN conjunct2, THEN conjunct2, THEN conjunct2,
      THEN conjunct2, THEN conjunct2, THEN conjunct1, rule_format]
  note B4 = T [THEN conjunct2, THEN conjunct2, THEN conjunct2, THEN conjunct2, THEN conjunct2,
      THEN conjunct2, THEN conjunct2, THEN conjunct2, THEN conjunct1, rule_format]
  note B5 = T [THEN conjunct2, THEN conjunct2, THEN conjunct2, THEN conjunct2, THEN conjunct2,
      THEN conjunct2, THEN conjunct2, THEN conjunct2, THEN conjunct2, rule_format]
  from A1 [OF conjI [OF bq_inv r1]]
  have h1: "all_pending b1 (queued b1)" "put_queue b1 = filter (pending b1) (put_queue bq)"
    by - (elim conjE, assumption)+
  from A2 [OF conjI [OF bq_inv r2(1)]]
  have h2: "all_pending b2 (queued b2)" "get_queue b2 = filter (pending b2) (get_queue bq)"
    by - (elim conjE, assumption)+
  from A3 [OF conjI [OF bq_inv r3(1)]]
  have h3: "all_pending b3 (queued b3)" "peek_queue b3 = filter (pending b3) (peek_queue bq)"
    by - (elim conjE, assumption)+
  from A4 [OF conjI [OF cb3_inv r4(1)]]
  have h4: "all_pending s4 (cb_peek_queue s4)"
    "cb_peek_queue s4 = filter (pending s4) (cb_peek_queue cb3)"
    by - (elim conjE, assumption)+
  from A5 [OF conjI [OF pl1_inv r5(1)]]
  have h5: "all_pending s5 (pl_put_queue s5)"
    "pl_put_queue s5 = filter (pending s5) (pl_put_queue pl1)"
    by - (elim conjE, assumption)+
  have h6: "trigger_put (bq\<lparr>capacity := 2\<rparr>) = Returned [0] (s6\<lparr>put_queue := []\<rparr>)"
    by (rule B1 [OF conjI [OF q(1) conjI [OF r6]]])
  have h7: "trigger_get bq = Returned [1] (s7\<lparr>get_queue := []\<rparr>)"
    by (rule B2 [OF conjI [OF q(2) conjI [OF r7]]])
  have h8: "trigger_peek bq = Returned [2] (s8\<lparr>peek_queue := [3]\<rparr>)"
    by (rule B3 [OF conjI [OF q(3) conjI [OF r8]]])
  from B4 [OF conjI [OF q(4) conjI [OF r9]]]
  have h9: "cb_trigger_peek cb3 = cb_trigger_peek_loop 0 [0] (s9\<lparr>cb_peek_queue := [1, 2]\<rparr>)"
    by simp
  from B5 [OF conjI [OF pl1_inv conjI [OF q(5) r10]]]
  have h10: "triggered s10 0" "pl_trigger_put pl1 = Returned [0] (s10\<lparr>pl_put_queue := []\<rparr>)"
    by - (elim conjE, assumption)+
  have g1: "\<exists>c s. trigger_put bq = Returned c s \<and> all_pending s (queued s)
          \<and> put_queue s = filter (pending s) (put_queue bq)"
    using r1 h1 by (intro exI [of _ c1] exI [of _ b1] conjI)
  have g2: "\<exists>c s. trigger_get bq = Returned c s \<and> all_pending s (queued s) \<and> get_queue s = []
          \<and> get_queue s = filter (pending s) (get_queue bq)"
    using r2 h2 by (intro exI [of _ c2] exI [of _ b2] conjI)
  have g3: "\<exists>c s. trigger_peek bq = Returned c s \<and> all_pending s (queued s) \<and> peek_queue s = [3]
          \<and> peek_queue s = filter (pending s) (peek_queue bq)"
    using r3 h3 by (intro exI [of _ c3] exI [of _ b3] conjI)
  have g4: "\<exists>c s. cb_trigger_peek cb3 = Returned c s \<and> all_pending s (cb_peek_queue s)
          \<and> cb_peek_queue s = [1, 2]
          \<and> cb_peek_queue s = filter (pending s) (cb_peek_queue cb3)"
    using r4 h4 by (intro exI [of _ c4] exI [of _ s4] conjI)
  have g5: "\<exists>c s. pl_trigger_put pl1 = Returned c s \<and> all_pending s (pl_put_queue s)
          \<and> pl_put_queue s = []
          \<and> pl_put_queue s = filter (pending s) (pl_put_queue pl1)"
    using r5 h5 by (intro exI [of _ c5] exI [of _ s5] conjI)
  have g6: "\<exists>p s. do_put 0 (bq\<lparr>capacity := 2\<rparr>) = Returned p s \<and> triggered s 0
          \<and> trigger_put (bq\<lparr>capacity := 2\<rparr>) = Returned [0] (s\<lparr>put_queue := []\<rparr>)"
    using r6 h6 by (intro exI [of _ p6] exI [of _ s6] conjI)
  have g7: "\<exists>p s. do_get 1 bq = Returned p s \<and> triggered s 1
          \<and> trigger_get bq = Returned [1] (s\<lparr>get_queue := []\<rparr>)"
    using r7 h7 by (intro exI [of _ p7] exI [of _ s7] conjI)
  have g8: "\<exists>p s. do_peek 2 bq = Returned p s \<and> triggered s 2
          \<and> trigger_peek bq = Returned [2] (s\<lparr>peek_queue := [3]\<rparr>)"
    using r8 h8 by (intro exI [of _ p8] exI [of _ s8] conjI)
  have g9: "\<exists>s. cb_do_peek 0 cb3 = Returned True s \<and> triggered s 0
          \<and> cb_trigger_peek cb3 = cb_trigger_peek_loop 0 [0] (s\<lparr>cb_peek_queue := [1, 2]\<rparr>)"
    using r9 h9 by (intro exI [of _ s9] conjI)
  have g10: "\<exists>p s. pl_do_put 0 pl1 = Returned p s \<and> triggered s 0
          \<and> pl_trigger_put pl1 = Returned [0] (s\<lparr>pl_put_queue := []\<rparr>)"
    using r10 h10 by (intro exI [of _ p10] exI [of _ s10] conjI)
  from bq_inv g1 g2 g3 cb3_inv g4 pl1_inv g5 g6 g7 g8 g9 g10 show ?thesis
    by (intro conjI)
qed

end
